theory Spec2Isabelle
  imports Complex_Main "HOL-Library.Word"
begin

unbundle bit_operations_syntax

section \<open>Data model of graphics.py\<close>

text \<open>
  Objects live in a store and are named by references, because the program shares them:
  a child keeps a reference to its container (\<open>_parent\<close>), a container keeps a list
  of references to its children, and the driver keeps a reference to its baseline.
  Python's exceptions are values of \<open>error\<close>.
\<close>

text \<open>The member \<open>XOR\<close> is written \<open>XOR'\<close>: \<open>XOR\<close> is the bit operation.\<close>

datatype BlendMode = ON | OFF | XOR'

datatype error =
  TypeError | ValueError | IndexError | NotImplementedError | AttributeError | RecursionError |
  OverflowError

type_synonym ref = nat

type_synonym uint16 = "16 word"

text \<open>
  A two-dimensional \<open>numpy\<close> array of \<open>uint16\<close>: its shape and its cells. Only the
  cells inside the shape are ever read or written.
\<close>

record ndarray =
  nrows :: nat
  ncols :: nat
  cells :: "nat \<Rightarrow> nat \<Rightarrow> uint16"

text \<open>
  The attributes a subclass of \<open>Bitmap\<close> adds: the class of the object with its own
  fields. \<open>Plain\<close> is a direct instance of \<open>Bitmap\<close>. A font is the pair of path
  and size given to \<open>ImageFont.truetype\<close>.
\<close>

datatype shape =
    Plain
  | Buffer "ref list"
  | Line int int int int
  | Circle int int int bool
  | Triangle int int int int int int bool
  | Rectangle int int int int bool
  | DrawableText string "string \<times> int" int int

record bitmap =
  width :: nat
  height :: nat
  words :: ndarray
  is_dirty :: bool
  parent :: "ref option"
  blend_mode :: BlendMode
  kind :: shape

record store =
  objs :: "ref \<Rightarrow> bitmap"
  next_ref :: ref

definition upd :: "ref \<Rightarrow> (bitmap \<Rightarrow> bitmap) \<Rightarrow> store \<Rightarrow> store" where
  "upd r f s = s\<lparr>objs := (objs s)(r := f (objs s r))\<rparr>"

definition new :: "bitmap \<Rightarrow> store \<Rightarrow> ref \<times> store" where
  "new b s = (next_ref s, s\<lparr>objs := (objs s)(next_ref s := b), next_ref := Suc (next_ref s)\<rparr>)"

subsection \<open>numpy operations used by the program\<close>

definition zeros :: "nat \<Rightarrow> nat \<Rightarrow> ndarray" where
  "zeros h w = \<lparr>nrows = h, ncols = w, cells = (\<lambda>i j. 0)\<rparr>"

definition in_shape :: "ndarray \<Rightarrow> nat \<Rightarrow> nat \<Rightarrow> bool" where
  "in_shape a i j = (i < nrows a \<and> j < ncols a)"

definition getitem :: "ndarray \<Rightarrow> nat \<Rightarrow> nat \<Rightarrow> error + uint16" where
  "getitem a i j = (if in_shape a i j then Inr (cells a i j) else Inl IndexError)"

definition setitem :: "ndarray \<Rightarrow> nat \<Rightarrow> nat \<Rightarrow> uint16 \<Rightarrow> error + ndarray" where
  "setitem a i j v =
     (if in_shape a i j then Inr (a\<lparr>cells := (cells a)(i := (cells a i)(j := v))\<rparr>)
      else Inl IndexError)"

text \<open>\<open>a.fill(v)\<close> and \<open>a ^= scalar\<close>: every cell of the shape.\<close>

definition map_cells :: "(uint16 \<Rightarrow> uint16) \<Rightarrow> ndarray \<Rightarrow> ndarray" where
  "map_cells f a = a\<lparr>cells := (\<lambda>i j. if in_shape a i j then f (cells a i j) else cells a i j)\<rparr>"

text \<open>
  \<open>a op= b\<close> on arrays: \<open>b\<close> is broadcast to the shape of \<open>a\<close> (a dimension of
  \<open>b\<close> must equal that of \<open>a\<close> or be 1), otherwise numpy raises ValueError.
\<close>

definition bcast :: "ndarray \<Rightarrow> nat \<Rightarrow> nat \<Rightarrow> uint16" where
  "bcast b i j = cells b (if nrows b = 1 then 0 else i) (if ncols b = 1 then 0 else j)"

definition inplace :: "(uint16 \<Rightarrow> uint16 \<Rightarrow> uint16) \<Rightarrow> ndarray \<Rightarrow> ndarray \<Rightarrow> error + ndarray" where
  "inplace f a b =
     (if (nrows b = nrows a \<or> nrows b = 1) \<and> (ncols b = ncols a \<or> ncols b = 1)
      then Inr (a\<lparr>cells := (\<lambda>i j. if in_shape a i j then f (cells a i j) (bcast b i j)
                                    else cells a i j)\<rparr>)
      else Inl ValueError)"

text \<open>\<open>a | b\<close> on arrays: a new array of the broadcast shape.\<close>

definition bdim :: "nat \<Rightarrow> nat \<Rightarrow> nat option" where
  "bdim m n = (if m = n then Some m else if m = 1 then Some n else if n = 1 then Some m else None)"

definition array_or :: "ndarray \<Rightarrow> ndarray \<Rightarrow> error + ndarray" where
  "array_or a b =
     (case (bdim (nrows a) (nrows b), bdim (ncols a) (ncols b)) of
        (Some h, Some w) \<Rightarrow>
          Inr \<lparr>nrows = h, ncols = w,
               cells = (\<lambda>i j. if i < h \<and> j < w then bcast a i j OR bcast b i j else 0)\<rparr>
      | _ \<Rightarrow> Inl ValueError)"

text \<open>\<open>~a\<close> on an array: a new array.\<close>

definition invert :: "ndarray \<Rightarrow> ndarray" where
  "invert a = \<lparr>nrows = nrows a, ncols = ncols a,
               cells = (\<lambda>i j. if in_shape a i j then NOT (cells a i j) else 0)\<rparr>"

subsection \<open>Bitmap\<close>

definition Bitmap_init :: "nat \<Rightarrow> nat \<Rightarrow> ref option \<Rightarrow> BlendMode \<Rightarrow> bitmap" where
  "Bitmap_init w h p bm =
     \<lparr>width = w, height = h, words = zeros h (w div 16), is_dirty = True,
      parent = p, blend_mode = bm, kind = Plain\<rparr>"

definition reset :: "ref \<Rightarrow> store \<Rightarrow> store" where
  "reset r s = upd r (\<lambda>b. b\<lparr>words := map_cells (\<lambda>_. 0) (words b)\<rparr>) s"

text \<open>
  \<open>dirty()\<close> calls itself on the parent. On a cyclic parent chain the recursion never
  ends; the value is then \<open>None\<close>, which \<open>mark_dirty\<close> reports as Python's
  RecursionError.
\<close>

partial_function (option) dirty :: "ref \<Rightarrow> store \<Rightarrow> store option" where
  "dirty r s =
     (case parent (objs s r) of
        None \<Rightarrow> Some (upd r (\<lambda>b. b\<lparr>is_dirty := True\<rparr>) s)
      | Some p \<Rightarrow> dirty p (upd r (\<lambda>b. b\<lparr>is_dirty := True\<rparr>) s))"

definition mark_dirty :: "ref \<Rightarrow> store \<Rightarrow> error + store" where
  "mark_dirty r s = (case dirty r s of None \<Rightarrow> Inl RecursionError | Some s' \<Rightarrow> Inr s')"

definition in_bounds :: "bitmap \<Rightarrow> int \<Rightarrow> int \<Rightarrow> bool" where
  "in_bounds b x y = (0 \<le> x \<and> x < int (width b) \<and> 0 \<le> y \<and> y < int (height b))"

text \<open>
  \<open>words[y, word] |= mask\<close> reads the cell, ORs the mask into it and stores it.
  In \<open>words[y, word] &= ~mask\<close> the mask is a Python int, so \<open>~mask\<close> is a negative
  Python int: after the cell has been read, numpy (since version 2) refuses to convert
  the negative int to \<open>uint16\<close> and raises OverflowError, and nothing is stored.
  (numpy 1 promoted both operands and stored the cell without the bit.)
\<close>

definition set_pixel :: "ref \<Rightarrow> int \<Rightarrow> int \<Rightarrow> bool \<Rightarrow> store \<Rightarrow> error + store" where
  "set_pixel r x y v s =
     (if \<not> in_bounds (objs s r) x y then Inr s
      else
        let word = nat (x div 16);
            bit = 15 - nat (x mod 16);
            mask = (push_bit bit 1 :: uint16);
            a = words (objs s r)
        in case getitem a (nat y) word of
             Inl e \<Rightarrow> Inl e
           | Inr old \<Rightarrow>
               if v then
                 (case setitem a (nat y) word (old OR mask) of
                    Inl e \<Rightarrow> Inl e
                  | Inr a' \<Rightarrow> mark_dirty r (upd r (\<lambda>b. b\<lparr>words := a'\<rparr>) s))
               else Inl OverflowError)"

definition get_pixel :: "ref \<Rightarrow> int \<Rightarrow> int \<Rightarrow> store \<Rightarrow> error + nat" where
  "get_pixel r x y s =
     (if \<not> in_bounds (objs s r) x y then Inr 0
      else
        let word = nat (x div 16);
            bit = 15 - nat (x mod 16)
        in case getitem (words (objs s r)) (nat y) word of
             Inl e \<Rightarrow> Inl e
           | Inr w \<Rightarrow> Inr (unat (drop_bit bit w AND 1)))"

definition set_word :: "ref \<Rightarrow> int \<Rightarrow> int \<Rightarrow> int \<Rightarrow> store \<Rightarrow> error + store" where
  "set_word r v h val s =
     (let b = objs s r in
      if 0 \<le> v \<and> v < int (height b) \<and> 0 \<le> h \<and> h < int (width b div 16) then
        (case setitem (words b) (nat v) (nat h) (word_of_int (val AND 0xFFFF)) of
           Inl e \<Rightarrow> Inl e
         | Inr a' \<Rightarrow> mark_dirty r (upd r (\<lambda>b. b\<lparr>words := a'\<rparr>) s))
      else Inr s)"

text \<open>
  \<open>Bitmap.reverse\<close> is one array operation; \<open>GraphicsBuffer.reverse\<close> walks the cells
  \<open>words[h][w]\<close> for \<open>h < height\<close> and \<open>w < width // 16\<close>, and raises IndexError
  where the array has no such cell.
\<close>

definition Bitmap_reverse :: "ref \<Rightarrow> store \<Rightarrow> store" where
  "Bitmap_reverse r s = upd r (\<lambda>b. b\<lparr>words := map_cells (\<lambda>w. w XOR 0xFFFF) (words b)\<rparr>) s"

fun for_each :: "('a \<Rightarrow> 's \<Rightarrow> 'e + 's) \<Rightarrow> 'a list \<Rightarrow> 's \<Rightarrow> 'e + 's" where
  "for_each f [] s = Inr s"
| "for_each f (x # xs) s = (case f x s of Inl e \<Rightarrow> Inl e | Inr s' \<Rightarrow> for_each f xs s')"

definition positions :: "nat \<Rightarrow> nat \<Rightarrow> (nat \<times> nat) list" where
  "positions h w = concat (map (\<lambda>i. map (\<lambda>j. (i, j)) [0..<w]) [0..<h])"

definition xor_cell :: "ref \<Rightarrow> nat \<times> nat \<Rightarrow> store \<Rightarrow> error + store" where
  "xor_cell r p s =
     (case getitem (words (objs s r)) (fst p) (snd p) of
        Inl e \<Rightarrow> Inl e
      | Inr old \<Rightarrow>
          (case setitem (words (objs s r)) (fst p) (snd p) (old XOR 0xFFFF) of
             Inl e \<Rightarrow> Inl e
           | Inr a' \<Rightarrow> Inr (upd r (\<lambda>b. b\<lparr>words := a'\<rparr>) s)))"

definition GraphicsBuffer_reverse :: "ref \<Rightarrow> store \<Rightarrow> error + store" where
  "GraphicsBuffer_reverse r s =
     for_each (xor_cell r) (positions (height (objs s r)) (width (objs s r) div 16)) s"


subsection \<open>Results of calls that may not return\<close>

text \<open>
  A drawing call returns \<open>None\<close> when it does not return, \<open>Some (Inl e)\<close> when it
  raises \<open>e\<close>, and \<open>Some (Inr s)\<close> when it returns with the store \<open>s\<close>.
\<close>

definition then_do :: "(error + 'a) option \<Rightarrow> ('a \<Rightarrow> (error + 'b) option) \<Rightarrow> (error + 'b) option" where
  "then_do m f = (case m of None \<Rightarrow> None | Some (Inl e) \<Rightarrow> Some (Inl e) | Some (Inr x) \<Rightarrow> f x)"

definition set_pixels :: "ref \<Rightarrow> (int \<times> int) list \<Rightarrow> store \<Rightarrow> error + store" where
  "set_pixels r ps s = for_each (\<lambda>p. set_pixel r (fst p) (snd p) True) ps s"

definition clear_dirty :: "ref \<Rightarrow> store \<Rightarrow> store" where
  "clear_dirty r s = upd r (\<lambda>b. b\<lparr>is_dirty := False\<rparr>) s"

subsection \<open>Line\<close>

definition Line_init :: "int \<Rightarrow> int \<Rightarrow> int \<Rightarrow> int \<Rightarrow> BlendMode \<Rightarrow> nat \<Rightarrow> nat \<Rightarrow> bitmap" where
  "Line_init x1 y1 x2 y2 bm w h = (Bitmap_init w h None ON)\<lparr>blend_mode := bm, kind := Line x1 y1 x2 y2\<rparr>"

text \<open>The \<open>while True\<close> loop of \<open>Line.draw\<close>; \<open>c\<close> holds \<open>(x2, y2, dx, dy, sx, sy)\<close>.\<close>

partial_function (option) line_loop ::
  "ref \<Rightarrow> int \<times> int \<times> int \<times> int \<times> int \<times> int \<Rightarrow> int \<Rightarrow> int \<Rightarrow> int \<Rightarrow> store \<Rightarrow> (error + store) option" where
  "line_loop r c x1 y1 err s =
     (case c of (x2, y2, dx, dy, sx, sy) \<Rightarrow>
      (case set_pixel r x1 y1 True s of
         Inl e \<Rightarrow> Some (Inl e)
       | Inr s1 \<Rightarrow>
           if x1 = x2 \<and> y1 = y2 then Some (Inr s1)
           else
             let e2 = 2 * err;
                 err1 = (if e2 \<ge> dy then err + dy else err);
                 x1' = (if e2 \<ge> dy then x1 + sx else x1);
                 err2 = (if e2 \<le> dx then err1 + dx else err1);
                 y1' = (if e2 \<le> dx then y1 + sy else y1)
             in line_loop r c x1' y1' err2 s1))"

definition Line_draw :: "ref \<Rightarrow> nat \<Rightarrow> nat \<Rightarrow> store \<Rightarrow> (error + store) option" where
  "Line_draw r w h s =
     (if \<not> is_dirty (objs s r) then Some (Inr s)
      else case kind (objs s r) of
        Line x1 y1 x2 y2 \<Rightarrow>
          (let dx = \<bar>x2 - x1\<bar>; dy = - \<bar>y2 - y1\<bar>;
               sx = (if x1 < x2 then 1 else - 1); sy = (if y1 < y2 then 1 else - 1)
           in then_do (line_loop r (x2, y2, dx, dy, sx, sy) x1 y1 (dx + dy) (reset r s))
                (\<lambda>s1. Some (Inr (clear_dirty r s1))))
      | _ \<Rightarrow> Some (Inl AttributeError))"

text \<open>\<open>Line(...).draw(width, height)\<close>: a temporary line, constructed and drawn.\<close>

definition temp_line ::
  "int \<Rightarrow> int \<Rightarrow> int \<Rightarrow> int \<Rightarrow> BlendMode \<Rightarrow> nat \<Rightarrow> nat \<Rightarrow> store \<Rightarrow> (error + ref \<times> store) option" where
  "temp_line x1 y1 x2 y2 bm w h s =
     (case new (Line_init x1 y1 x2 y2 bm w h) s of
        (t, s1) \<Rightarrow> then_do (Line_draw t w h s1) (\<lambda>s2. Some (Inr (t, s2))))"

text \<open>\<open>self.words |= a.words | b.words | ...\<close>\<close>

fun or_all :: "ndarray \<Rightarrow> ndarray list \<Rightarrow> error + ndarray" where
  "or_all a [] = Inr a"
| "or_all a (b # bs) = (case array_or a b of Inl e \<Rightarrow> Inl e | Inr ab \<Rightarrow> or_all ab bs)"

definition merge_lines :: "ref \<Rightarrow> ref \<Rightarrow> ref list \<Rightarrow> store \<Rightarrow> error + store" where
  "merge_lines r t ts s =
     (case or_all (words (objs s t)) (map (\<lambda>u. words (objs s u)) ts) of
        Inl e \<Rightarrow> Inl e
      | Inr m \<Rightarrow>
          (case inplace (OR) (words (objs s r)) m of
             Inl e \<Rightarrow> Inl e
           | Inr a \<Rightarrow> Inr (upd r (\<lambda>b. b\<lparr>words := a\<rparr>) s)))"

subsection \<open>Circle\<close>

definition Circle_init :: "int \<Rightarrow> int \<Rightarrow> int \<Rightarrow> bool \<Rightarrow> BlendMode \<Rightarrow> nat \<Rightarrow> nat \<Rightarrow> bitmap" where
  "Circle_init xc yc radius fill bm w h =
     (Bitmap_init w h None ON)\<lparr>blend_mode := bm, kind := Circle xc yc radius fill\<rparr>"

definition circle_points :: "ref \<Rightarrow> int \<Rightarrow> int \<Rightarrow> int \<Rightarrow> int \<Rightarrow> store \<Rightarrow> error + store" where
  "circle_points r xc yc x y s =
     set_pixels r
       [(xc + x, yc + y), (xc - x, yc + y), (xc + x, yc - y), (xc - x, yc - y),
        (xc + y, yc + x), (xc - y, yc + x), (xc + y, yc - x), (xc - y, yc - x)] s"

definition circle_fill :: "ref \<Rightarrow> int \<Rightarrow> int \<Rightarrow> int \<Rightarrow> int \<Rightarrow> store \<Rightarrow> error + store" where
  "circle_fill r xc yc x y s =
     (case set_pixels r (concat (map (\<lambda>px. [(px, yc + y), (px, yc - y)]) [xc - x..xc + x])) s of
        Inl e \<Rightarrow> Inl e
      | Inr s1 \<Rightarrow>
          set_pixels r (concat (map (\<lambda>px. [(px, yc + x), (px, yc - x)]) [xc - y..xc + y])) s1)"

function circle_loop ::
  "ref \<Rightarrow> int \<Rightarrow> int \<Rightarrow> bool \<Rightarrow> int \<Rightarrow> int \<Rightarrow> int \<Rightarrow> store \<Rightarrow> error + store" where
  "circle_loop r x0 y0 fill x y d s =
     (if x \<le> y then
        (case (if fill then circle_fill r x0 y0 x y s else circle_points r x0 y0 x y s) of
           Inl e \<Rightarrow> Inl e
         | Inr s1 \<Rightarrow>
             if d < 0 then circle_loop r x0 y0 fill (x + 1) y (d + (2 * x + 3)) s1
             else circle_loop r x0 y0 fill (x + 1) (y - 1) (d + (2 * (x - y) + 5)) s1)
      else Inr s)"
  by pat_completeness auto
termination
  by (relation "measure (\<lambda>(r, x0, y0, fill, x, y, d, s). nat (y - x + 1))") auto

definition Circle_draw :: "ref \<Rightarrow> nat \<Rightarrow> nat \<Rightarrow> store \<Rightarrow> (error + store) option" where
  "Circle_draw r w h s =
     (if \<not> is_dirty (objs s r) then Some (Inr s)
      else case kind (objs s r) of
        Circle xc yc radius fill \<Rightarrow>
          (case circle_loop r xc yc fill 0 radius (1 - radius) (reset r s) of
             Inl e \<Rightarrow> Some (Inl e)
           | Inr s1 \<Rightarrow> Some (Inr (clear_dirty r s1)))
      | _ \<Rightarrow> Some (Inl AttributeError))"

subsection \<open>Rectangle\<close>

definition Rectangle_init :: "int \<Rightarrow> int \<Rightarrow> int \<Rightarrow> int \<Rightarrow> bool \<Rightarrow> BlendMode \<Rightarrow> nat \<Rightarrow> nat \<Rightarrow> bitmap" where
  "Rectangle_init x y w h fill bm wd ht =
     (Bitmap_init wd ht None ON)\<lparr>blend_mode := bm, kind := Rectangle x y w h fill\<rparr>"

definition Rectangle_draw :: "ref \<Rightarrow> nat \<Rightarrow> nat \<Rightarrow> store \<Rightarrow> (error + store) option" where
  "Rectangle_draw r wd ht s =
     (if \<not> is_dirty (objs s r) then Some (Inr s)
      else case kind (objs s r) of
        Rectangle x y w h fill \<Rightarrow>
          (let s0 = reset r s; bm = blend_mode (objs s0 r) in
           then_do
             (if \<not> fill then
                then_do (temp_line x y (x + w - 1) y bm wd ht s0) (\<lambda>(top, s1).
                then_do (temp_line x y x (y + h - 1) bm wd ht s1) (\<lambda>(left, s2).
                then_do (temp_line (x + w - 1) y (x + w - 1) (y + h - 1) bm wd ht s2) (\<lambda>(right, s3).
                then_do (temp_line x (y + h - 1) (x + w - 1) (y + h - 1) bm wd ht s3) (\<lambda>(bottom, s4).
                  Some (merge_lines r top [left, right, bottom] s4)))))
              else
                Some (set_pixels r (concat (map (\<lambda>yy. map (\<lambda>xx. (xx, yy)) [x..x + w - 1]) [y..y + h - 1])) s0))
             (\<lambda>s5. Some (Inr (clear_dirty r s5))))
      | _ \<Rightarrow> Some (Inl AttributeError))"

subsection \<open>Triangle\<close>

text \<open>
  The filled triangle computes with Python floats, and the text with the PIL library.
  Both are parameters of the model: the four float operations the source uses (true
  division of two integers, float times integer, integer plus float, \<open>round\<close>), on a
  linearly ordered type of floats, and \<open>ink font text x y wd ht i j\<close>, which
  says whether PIL leaves pixel \<open>(i, j)\<close> of the text image at 0. A float operation
  can raise (OverflowError when an integer operand does not fit a float or when the
  result of a division or the argument of \<open>round\<close> is infinite), so each returns an
  error or a value.
\<close>

record 'f env =
  fdiv :: "int \<Rightarrow> int \<Rightarrow> error + 'f"
  fmul :: "'f \<Rightarrow> int \<Rightarrow> error + 'f"
  fadd :: "int \<Rightarrow> 'f \<Rightarrow> error + 'f"
  fround :: "'f \<Rightarrow> error + int"
  ink :: "string \<times> int \<Rightarrow> string \<Rightarrow> int \<Rightarrow> int \<Rightarrow> nat \<Rightarrow> nat \<Rightarrow> nat \<Rightarrow> nat \<Rightarrow> bool"


definition and_then :: "error + 'a \<Rightarrow> ('a \<Rightarrow> error + 'b) \<Rightarrow> error + 'b" where
  "and_then m f = (case m of Inl e \<Rightarrow> Inl e | Inr x \<Rightarrow> f x)"

text \<open>
  One pass of the inner loop, over one edge: the intersection of scanline \<open>y\<close> with the
  edge, if any (\<open>t = (y - y0) / (y1 - y0)\<close>, then \<open>x = x0 + t * (x1 - x0)\<close>).
\<close>

definition edge_hit :: "'f env \<Rightarrow> int \<Rightarrow> (int \<times> int) \<times> (int \<times> int) \<Rightarrow> error + 'f list" where
  "edge_hit E y e =
     (case e of ((x0, y0), (x1, y1)) \<Rightarrow>
        if y0 = y1 then Inr []
        else if y \<ge> min y0 y1 \<and> y \<le> max y0 y1
          then and_then (fdiv E (y - y0) (y1 - y0)) (\<lambda>t.
               and_then (fmul E t (x1 - x0)) (\<lambda>p.
               and_then (fadd E x0 p) (\<lambda>x. Inr [x])))
          else Inr [])"

text \<open>The inner loop over the three edges: the list \<open>xints\<close> of scanline \<open>y\<close>.\<close>

definition xints :: "'f env \<Rightarrow> (int \<times> int) list \<Rightarrow> int \<Rightarrow> error + 'f list" where
  "xints E vertices y =
     and_then (edge_hit E y (vertices ! 0, vertices ! 1)) (\<lambda>a.
     and_then (edge_hit E y (vertices ! 1, vertices ! 2)) (\<lambda>b.
     and_then (edge_hit E y (vertices ! 2, vertices ! 0)) (\<lambda>c. Inr (a @ b @ c))))"

text \<open>
  The body of the loop over the rows. \<open>sorted(xints)[:2]\<close> has two elements when
  \<open>len(xints) >= 2\<close>; the unpacking of any other list would raise ValueError.
\<close>

definition fill_row :: "('f::linorder) env \<Rightarrow> ref \<Rightarrow> (int \<times> int) list \<Rightarrow> int \<Rightarrow> store \<Rightarrow> error + store" where
  "fill_row E r vertices y s =
     (case xints E vertices y of
        Inl e \<Rightarrow> Inl e
      | Inr xs \<Rightarrow>
          if length xs \<ge> 2 then
            (case take 2 (sort xs) of
               [xL, xR] \<Rightarrow>
                 and_then (fround E xL) (\<lambda>a.
                 and_then (fround E xR) (\<lambda>b.
                   set_pixels r (map (\<lambda>x. (x, y)) [a..b]) s))
             | _ \<Rightarrow> Inl ValueError)
          else Inr s)"

definition Triangle_draw :: "('f::linorder) env \<Rightarrow> ref \<Rightarrow> nat \<Rightarrow> nat \<Rightarrow> store \<Rightarrow> (error + store) option" where
  "Triangle_draw E r wd ht s =
     (if \<not> is_dirty (objs s r) then Some (Inr s)
      else case kind (objs s r) of
        Triangle x1 y1 x2 y2 x3 y3 fill \<Rightarrow>
          (let s0 = reset r s; bm = blend_mode (objs s0 r) in
           then_do
             (if \<not> fill then
                then_do (temp_line x1 y1 x2 y2 bm wd ht s0) (\<lambda>(l1, s1).
                then_do (temp_line x2 y2 x3 y3 bm wd ht s1) (\<lambda>(l2, s2).
                then_do (temp_line x3 y3 x1 y1 bm wd ht s2) (\<lambda>(l3, s3).
                  Some (merge_lines r l1 [l2, l3] s3))))
              else
                (let vertices = [(x1, y1), (x2, y2), (x3, y3)];
                     ymin = Min (set (map snd vertices));
                     ymax = Max (set (map snd vertices))
                 in Some (for_each (fill_row E r vertices) [ymin..ymax] s0)))
             (\<lambda>s5. Some (Inr (clear_dirty r s5))))
      | _ \<Rightarrow> Some (Inl AttributeError))"

subsection \<open>DrawableText\<close>

definition DrawableText_init ::
  "string \<Rightarrow> string \<Rightarrow> int \<Rightarrow> int \<Rightarrow> int \<Rightarrow> BlendMode \<Rightarrow> nat \<Rightarrow> nat \<Rightarrow> bitmap" where
  "DrawableText_init text font_path sz x y bm w h =
     (Bitmap_init w h None ON)\<lparr>blend_mode := bm, kind := DrawableText text (font_path, sz) x y\<rparr>"

definition DrawableText_draw :: "'f env \<Rightarrow> ref \<Rightarrow> nat \<Rightarrow> nat \<Rightarrow> store \<Rightarrow> (error + store) option" where
  "DrawableText_draw E r wd ht s =
     (if \<not> is_dirty (objs s r) then Some (Inr s)
      else case kind (objs s r) of
        DrawableText text font x y \<Rightarrow>
          (case for_each
                  (\<lambda>p s. if ink E font text x y wd ht (snd p) (fst p)
                         then set_pixel r (int (snd p)) (int (fst p)) True s else Inr s)
                  (positions ht wd) (reset r s) of
             Inl e \<Rightarrow> Some (Inl e)
           | Inr s1 \<Rightarrow> Some (Inr (clear_dirty r s1)))
      | _ \<Rightarrow> Some (Inl AttributeError))"

subsection \<open>GraphicsBuffer\<close>

definition GraphicsBuffer_init :: "nat \<Rightarrow> nat \<Rightarrow> bitmap" where
  "GraphicsBuffer_init w h = (Bitmap_init w h None ON)\<lparr>kind := Buffer []\<rparr>"

definition add :: "ref \<Rightarrow> ref \<Rightarrow> store \<Rightarrow> error + store" where
  "add g drawable s =
     (let s1 = upd drawable (\<lambda>b. b\<lparr>parent := Some g\<rparr>) s in
      case kind (objs s1 g) of
        Buffer cs \<Rightarrow> Inr (upd g (\<lambda>b. b\<lparr>kind := Buffer (cs @ [drawable])\<rparr>) s1)
      | _ \<Rightarrow> Inl AttributeError)"

text \<open>
  \<open>c.draw(self.width, self.height)\<close>: the method of the child's class, called with two
  arguments. \<open>Bitmap.draw\<close> raises NotImplementedError; \<open>GraphicsBuffer.draw\<close> takes no
  argument besides \<open>self\<close>, so Python raises TypeError before its body runs.
\<close>

definition draw_child :: "('f::linorder) env \<Rightarrow> ref \<Rightarrow> nat \<Rightarrow> nat \<Rightarrow> store \<Rightarrow> (error + store) option" where
  "draw_child E c w h s =
     (case kind (objs s c) of
        Plain \<Rightarrow> Some (Inl NotImplementedError)
      | Buffer cs \<Rightarrow> Some (Inl TypeError)
      | Line x1 y1 x2 y2 \<Rightarrow> Line_draw c w h s
      | Circle xc yc radius fill \<Rightarrow> Circle_draw c w h s
      | Triangle x1 y1 x2 y2 x3 y3 fill \<Rightarrow> Triangle_draw E c w h s
      | Rectangle x y rw rh fill \<Rightarrow> Rectangle_draw c w h s
      | DrawableText text font x y \<Rightarrow> DrawableText_draw E c w h s)"

definition blend :: "BlendMode \<Rightarrow> ndarray \<Rightarrow> ndarray \<Rightarrow> error + ndarray" where
  "blend bm acc drawn =
     (case bm of
        ON \<Rightarrow> inplace (OR) acc drawn
      | OFF \<Rightarrow> inplace (AND) acc (invert drawn)
      | XOR' \<Rightarrow> inplace (XOR) acc drawn)"

fun compose :: "('f::linorder) env \<Rightarrow> ref \<Rightarrow> ref list \<Rightarrow> store \<Rightarrow> (error + store) option" where
  "compose E g [] s = Some (Inr s)"
| "compose E g (c # cs) s =
     (let bm = blend_mode (objs s c) in
      then_do (draw_child E c (width (objs s g)) (height (objs s g)) s) (\<lambda>s1.
        case blend bm (words (objs s1 g)) (words (objs s1 c)) of
          Inl e \<Rightarrow> Some (Inl e)
        | Inr a \<Rightarrow> compose E g cs (upd g (\<lambda>b. b\<lparr>words := a\<rparr>) s1)))"

definition GraphicsBuffer_draw :: "('f::linorder) env \<Rightarrow> ref \<Rightarrow> store \<Rightarrow> (error + store) option" where
  "GraphicsBuffer_draw E g s =
     (if \<not> is_dirty (objs s g) then Some (Inr s)
      else case kind (objs s g) of
        Buffer cs \<Rightarrow> compose E g cs (reset g s)
      | _ \<Rightarrow> Some (Inl AttributeError))"


subsection \<open>Property setters\<close>

text \<open>
  Every setter stores the new value in the field of its class and calls \<open>dirty()\<close>.
\<close>

definition set_attr :: "ref \<Rightarrow> (shape \<Rightarrow> shape) \<Rightarrow> store \<Rightarrow> error + store" where
  "set_attr r f s = mark_dirty r (upd r (\<lambda>b. b\<lparr>kind := f (kind b)\<rparr>) s)"

definition Line_set_x1 :: "ref \<Rightarrow> int \<Rightarrow> store \<Rightarrow> error + store" where
  "Line_set_x1 r v = set_attr r (\<lambda>k. case k of Line x1 y1 x2 y2 \<Rightarrow> Line v y1 x2 y2 | _ \<Rightarrow> k)"

definition Line_set_y1 :: "ref \<Rightarrow> int \<Rightarrow> store \<Rightarrow> error + store" where
  "Line_set_y1 r v = set_attr r (\<lambda>k. case k of Line x1 y1 x2 y2 \<Rightarrow> Line x1 v x2 y2 | _ \<Rightarrow> k)"

definition Line_set_x2 :: "ref \<Rightarrow> int \<Rightarrow> store \<Rightarrow> error + store" where
  "Line_set_x2 r v = set_attr r (\<lambda>k. case k of Line x1 y1 x2 y2 \<Rightarrow> Line x1 y1 v y2 | _ \<Rightarrow> k)"

definition Line_set_y2 :: "ref \<Rightarrow> int \<Rightarrow> store \<Rightarrow> error + store" where
  "Line_set_y2 r v = set_attr r (\<lambda>k. case k of Line x1 y1 x2 y2 \<Rightarrow> Line x1 y1 x2 v | _ \<Rightarrow> k)"

definition Circle_set_xc :: "ref \<Rightarrow> int \<Rightarrow> store \<Rightarrow> error + store" where
  "Circle_set_xc r v = set_attr r (\<lambda>k. case k of Circle xc yc radius fill \<Rightarrow> Circle v yc radius fill | _ \<Rightarrow> k)"

definition Circle_set_yc :: "ref \<Rightarrow> int \<Rightarrow> store \<Rightarrow> error + store" where
  "Circle_set_yc r v = set_attr r (\<lambda>k. case k of Circle xc yc radius fill \<Rightarrow> Circle xc v radius fill | _ \<Rightarrow> k)"

definition Circle_set_radius :: "ref \<Rightarrow> int \<Rightarrow> store \<Rightarrow> error + store" where
  "Circle_set_radius r v = set_attr r (\<lambda>k. case k of Circle xc yc radius fill \<Rightarrow> Circle xc yc v fill | _ \<Rightarrow> k)"

definition Circle_set_fill :: "ref \<Rightarrow> bool \<Rightarrow> store \<Rightarrow> error + store" where
  "Circle_set_fill r v = set_attr r (\<lambda>k. case k of Circle xc yc radius fill \<Rightarrow> Circle xc yc radius v | _ \<Rightarrow> k)"

definition Triangle_set_x1 :: "ref \<Rightarrow> int \<Rightarrow> store \<Rightarrow> error + store" where
  "Triangle_set_x1 r v = set_attr r (\<lambda>k. case k of Triangle x1 y1 x2 y2 x3 y3 fill \<Rightarrow> Triangle v y1 x2 y2 x3 y3 fill | _ \<Rightarrow> k)"

definition Triangle_set_y1 :: "ref \<Rightarrow> int \<Rightarrow> store \<Rightarrow> error + store" where
  "Triangle_set_y1 r v = set_attr r (\<lambda>k. case k of Triangle x1 y1 x2 y2 x3 y3 fill \<Rightarrow> Triangle x1 v x2 y2 x3 y3 fill | _ \<Rightarrow> k)"

definition Triangle_set_x2 :: "ref \<Rightarrow> int \<Rightarrow> store \<Rightarrow> error + store" where
  "Triangle_set_x2 r v = set_attr r (\<lambda>k. case k of Triangle x1 y1 x2 y2 x3 y3 fill \<Rightarrow> Triangle x1 y1 v y2 x3 y3 fill | _ \<Rightarrow> k)"

definition Triangle_set_y2 :: "ref \<Rightarrow> int \<Rightarrow> store \<Rightarrow> error + store" where
  "Triangle_set_y2 r v = set_attr r (\<lambda>k. case k of Triangle x1 y1 x2 y2 x3 y3 fill \<Rightarrow> Triangle x1 y1 x2 v x3 y3 fill | _ \<Rightarrow> k)"

definition Triangle_set_x3 :: "ref \<Rightarrow> int \<Rightarrow> store \<Rightarrow> error + store" where
  "Triangle_set_x3 r v = set_attr r (\<lambda>k. case k of Triangle x1 y1 x2 y2 x3 y3 fill \<Rightarrow> Triangle x1 y1 x2 y2 v y3 fill | _ \<Rightarrow> k)"

definition Triangle_set_y3 :: "ref \<Rightarrow> int \<Rightarrow> store \<Rightarrow> error + store" where
  "Triangle_set_y3 r v = set_attr r (\<lambda>k. case k of Triangle x1 y1 x2 y2 x3 y3 fill \<Rightarrow> Triangle x1 y1 x2 y2 x3 v fill | _ \<Rightarrow> k)"

definition Triangle_set_fill :: "ref \<Rightarrow> bool \<Rightarrow> store \<Rightarrow> error + store" where
  "Triangle_set_fill r v = set_attr r (\<lambda>k. case k of Triangle x1 y1 x2 y2 x3 y3 fill \<Rightarrow> Triangle x1 y1 x2 y2 x3 y3 v | _ \<Rightarrow> k)"

definition Rectangle_set_x :: "ref \<Rightarrow> int \<Rightarrow> store \<Rightarrow> error + store" where
  "Rectangle_set_x r v = set_attr r (\<lambda>k. case k of Rectangle x y w h fill \<Rightarrow> Rectangle v y w h fill | _ \<Rightarrow> k)"

definition Rectangle_set_y :: "ref \<Rightarrow> int \<Rightarrow> store \<Rightarrow> error + store" where
  "Rectangle_set_y r v = set_attr r (\<lambda>k. case k of Rectangle x y w h fill \<Rightarrow> Rectangle x v w h fill | _ \<Rightarrow> k)"

definition Rectangle_set_w :: "ref \<Rightarrow> int \<Rightarrow> store \<Rightarrow> error + store" where
  "Rectangle_set_w r v = set_attr r (\<lambda>k. case k of Rectangle x y w h fill \<Rightarrow> Rectangle x y v h fill | _ \<Rightarrow> k)"

definition Rectangle_set_h :: "ref \<Rightarrow> int \<Rightarrow> store \<Rightarrow> error + store" where
  "Rectangle_set_h r v = set_attr r (\<lambda>k. case k of Rectangle x y w h fill \<Rightarrow> Rectangle x y w v fill | _ \<Rightarrow> k)"

definition Rectangle_set_fill :: "ref \<Rightarrow> bool \<Rightarrow> store \<Rightarrow> error + store" where
  "Rectangle_set_fill r v = set_attr r (\<lambda>k. case k of Rectangle x y w h fill \<Rightarrow> Rectangle x y w h v | _ \<Rightarrow> k)"

definition DrawableText_set_text :: "ref \<Rightarrow> string \<Rightarrow> store \<Rightarrow> error + store" where
  "DrawableText_set_text r v = set_attr r (\<lambda>k. case k of DrawableText text font x y \<Rightarrow> DrawableText v font x y | _ \<Rightarrow> k)"

definition DrawableText_set_x :: "ref \<Rightarrow> int \<Rightarrow> store \<Rightarrow> error + store" where
  "DrawableText_set_x r v = set_attr r (\<lambda>k. case k of DrawableText text font x y \<Rightarrow> DrawableText text font v y | _ \<Rightarrow> k)"

definition DrawableText_set_y :: "ref \<Rightarrow> int \<Rightarrow> store \<Rightarrow> error + store" where
  "DrawableText_set_y r v = set_attr r (\<lambda>k. case k of DrawableText text font x y \<Rightarrow> DrawableText text font x v | _ \<Rightarrow> k)"

section \<open>The driver of driver.py\<close>

subsection \<open>copy.deepcopy\<close>

text \<open>
  \<open>deepcopy(bmp)\<close> copies every object that can be reached from \<open>bmp\<close> through
  \<open>_parent\<close> and \<open>children\<close>, once each, and makes the references of the copies
  point to the copies. \<open>reach\<close> collects the reachable objects, \<open>bmp\<close> first; the
  copies are fresh objects at the end of the store, in that order.
\<close>

definition refs_of :: "bitmap \<Rightarrow> ref list" where
  "refs_of b =
     (case parent b of None \<Rightarrow> [] | Some p \<Rightarrow> [p]) @ (case kind b of Buffer cs \<Rightarrow> cs | _ \<Rightarrow> [])"

fun reach :: "nat \<Rightarrow> store \<Rightarrow> ref list \<Rightarrow> ref list" where
  "reach 0 s seen = seen"
| "reach (Suc n) s seen =
     (case filter (\<lambda>x. x \<notin> set seen) (concat (map (\<lambda>r. refs_of (objs s r)) seen)) of
        [] \<Rightarrow> seen
      | x # _ \<Rightarrow> reach n s (seen @ [x]))"

fun index_of :: "ref \<Rightarrow> ref list \<Rightarrow> nat" where
  "index_of x [] = 0"
| "index_of x (y # ys) = (if x = y then 0 else Suc (index_of x ys))"

definition rename :: "(ref \<Rightarrow> ref) \<Rightarrow> bitmap \<Rightarrow> bitmap" where
  "rename f b =
     b\<lparr>parent := map_option f (parent b),
       kind := (case kind b of Buffer cs \<Rightarrow> Buffer (map f cs) | k \<Rightarrow> k)\<rparr>"

definition deepcopy :: "ref \<Rightarrow> store \<Rightarrow> ref \<times> store" where
  "deepcopy r s =
     (let n = next_ref s;
          seen = reach n s [r];
          f = (\<lambda>x. n + index_of x seen)
      in (n, s\<lparr>objs := (\<lambda>x. if n \<le> x \<and> x < n + length seen
                               then rename f (objs s (seen ! (x - n))) else objs s x),
                next_ref := n + length seen\<rparr>))"

subsection \<open>ST7920\<close>

text \<open>
  The state of the driver: its fields, and the list of the byte triples given to
  \<open>spi.writebytes\<close>, oldest first. The pins and the pauses are left out. A call that
  raises returns \<open>Inl\<close> of the error and of the state the driver is left in.
\<close>

record driver =
  d_width :: nat
  d_height :: nat
  extended :: bool
  graphics :: bool
  old_buffer :: "ref option"
  spi :: "nat list list"

definition send :: "nat \<Rightarrow> bool \<Rightarrow> driver \<Rightarrow> driver" where
  "send byte is_data d =
     (let sync_byte = 0xF8 OR (if is_data then 0x02 else 0x00);
          upper = byte AND 0xF0;
          lower = push_bit 4 byte AND 0xF0
      in d\<lparr>spi := spi d @ [[sync_byte, upper, lower]]\<rparr>)"

definition send_cmd :: "nat \<Rightarrow> driver \<Rightarrow> driver" where
  "send_cmd b d = send b False d"

definition send_data :: "nat \<Rightarrow> driver \<Rightarrow> driver" where
  "send_data b d = send b True d"

definition clear :: "driver \<Rightarrow> driver" where
  "clear d = send_cmd 0x01 d"

definition initialize :: "driver \<Rightarrow> driver" where
  "initialize d = send_cmd 0x06 (clear (send_cmd 0x0C (send_cmd 0x30 d)))"

definition ST7920_init :: "nat \<Rightarrow> nat \<Rightarrow> driver" where
  "ST7920_init w h =
     initialize \<lparr>d_width = w, d_height = h, extended = False, graphics = False,
                 old_buffer = None, spi = []\<rparr>"

definition set_instruction_set :: "bool \<Rightarrow> bool \<Rightarrow> driver \<Rightarrow> error \<times> driver + driver" where
  "set_instruction_set ext gr d =
     (let d1 = d\<lparr>extended := ext\<rparr>;
          d2 = send_cmd (0x30 OR push_bit 2 (of_bool ext)) d1
      in if gr then
           (if \<not> ext then Inl (ValueError, d2)
            else Inr (send_cmd (0x30 OR push_bit 2 1 OR push_bit 1 1) (d2\<lparr>graphics := True\<rparr>)))
         else Inr d2)"

definition set_gdram_address :: "nat \<Rightarrow> nat \<Rightarrow> driver \<Rightarrow> error \<times> driver + driver" where
  "set_gdram_address row col_word d =
     (if \<not> row < d_height d then Inl (ValueError, d)
      else if \<not> col_word < d_width d div 16 then Inl (ValueError, d)
      else
        let row' = (if row \<ge> 32 then row - 32 else row);
            col_word' = (if row \<ge> 32 then col_word + 8 else col_word)
        in Inr (send_cmd (0x80 OR col_word') (send_cmd (0x80 OR row') d)))"

definition write_gdram_word :: "nat \<Rightarrow> driver \<Rightarrow> driver" where
  "write_gdram_word word16 d = send_data (word16 AND 0xFF) (send_data (drop_bit 8 word16 AND 0xFF) d)"

definition clear_row :: "nat \<Rightarrow> driver \<Rightarrow> error \<times> driver + driver" where
  "clear_row row d =
     (case set_gdram_address row 0 d of
        Inl e \<Rightarrow> Inl e
      | Inr d1 \<Rightarrow> for_each (\<lambda>col d. Inr (write_gdram_word 0x0000 d)) [0..<8] d1)"

definition clear_gdram :: "driver \<Rightarrow> error \<times> driver + driver" where
  "clear_gdram d =
     (case for_each clear_row [0..<64] d of
        Inl e \<Rightarrow> Inl e
      | Inr d1 \<Rightarrow> Inr (d1\<lparr>old_buffer := None\<rparr>))"

text \<open>
  The body of the two loops of \<open>write_gdram_buffer\<close> at one \<open>(row, col_word)\<close>.
  \<open>old_word\<close> is \<open>None\<close> when there is no baseline, and no word equals \<open>None\<close>.
\<close>

definition write_cell :: "store \<Rightarrow> ref \<Rightarrow> nat \<times> nat \<Rightarrow> driver \<Rightarrow> error \<times> driver + driver" where
  "write_cell s bmp p d =
     (case getitem (words (objs s bmp)) (fst p) (snd p) of
        Inl e \<Rightarrow> Inl (e, d)
      | Inr new_word \<Rightarrow>
          (case (case old_buffer d of
                   Some ob \<Rightarrow> map_sum id Some (getitem (words (objs s ob)) (fst p) (snd p))
                 | None \<Rightarrow> Inr None) of
             Inl e \<Rightarrow> Inl (e, d)
           | Inr old_word \<Rightarrow>
               if Some new_word \<noteq> old_word then
                 (case set_gdram_address (fst p) (snd p) d of
                    Inl e \<Rightarrow> Inl e
                  | Inr d1 \<Rightarrow> Inr (write_gdram_word (unat new_word) d1))
               else Inr d))"

definition write_gdram_buffer :: "ref \<Rightarrow> store \<Rightarrow> driver \<Rightarrow> error \<times> driver + store \<times> driver" where
  "write_gdram_buffer bmp s d =
     (case for_each (write_cell s bmp)
             (positions (height (objs s bmp)) (width (objs s bmp) div 16)) d of
        Inl e \<Rightarrow> Inl e
      | Inr d1 \<Rightarrow>
          (case deepcopy bmp s of (c, s1) \<Rightarrow> Inr (s1, d1\<lparr>old_buffer := Some c\<rparr>)))"


section \<open>Notions used in the statements\<close>

text \<open>
  \<open>chain s r ps\<close>: the containers above \<open>r\<close> are \<open>ps\<close>, nearest first, and the last
  has no parent. \<open>touch A s\<close> sets the dirty flag of the objects in \<open>A\<close>.
  \<open>shape_ok\<close> is the data model's invariant of a surface: the array has \<open>height\<close>
  rows and \<open>width / 16\<close> words per row, and 16 divides \<open>width\<close>.
\<close>

fun chain :: "store \<Rightarrow> ref \<Rightarrow> ref list \<Rightarrow> bool" where
  "chain s r [] = (parent (objs s r) = None)"
| "chain s r (p # ps) = (parent (objs s r) = Some p \<and> chain s p ps)"

definition touch :: "ref set \<Rightarrow> store \<Rightarrow> store" where
  "touch A s = s\<lparr>objs := (\<lambda>x. if x \<in> A then (objs s x)\<lparr>is_dirty := True\<rparr> else objs s x)\<rparr>"

definition shape_ok :: "bitmap \<Rightarrow> bool" where
  "shape_ok b = (nrows (words b) = height b \<and> ncols (words b) = width b div 16 \<and> 16 dvd width b)"

definition pixel :: "ndarray \<Rightarrow> int \<Rightarrow> int \<Rightarrow> nat" where
  "pixel a x y = of_bool (bit (cells a (nat y) (nat (x div 16))) (15 - nat (x mod 16)))"

definition put_bit :: "int \<Rightarrow> int \<Rightarrow> ndarray \<Rightarrow> ndarray" where
  "put_bit x y a =
     a\<lparr>cells := (cells a)(nat y := (cells a (nat y))(nat (x div 16) :=
         cells a (nat y) (nat (x div 16)) OR push_bit (15 - nat (x mod 16)) 1))\<rparr>"

datatype surface_op = SetPixel int int bool | SetWord int int int

fun apply_op :: "ref \<Rightarrow> surface_op \<Rightarrow> store \<Rightarrow> error + store" where
  "apply_op r (SetPixel x y v) s = set_pixel r x y v s"
| "apply_op r (SetWord v h val) s = set_word r v h val s"

fun last_written :: "surface_op list \<Rightarrow> int \<Rightarrow> int \<Rightarrow> nat \<Rightarrow> nat" where
  "last_written [] x y d = d"
| "last_written (SetPixel x' y' v # ws) x y d =
     (if x' = x \<and> y' = y then (if v then 1 else 0) else last_written ws x y d)"
| "last_written (SetWord v h val # ws) x y d =
     (if v = y \<and> h = x div 16 then (if bit val (15 - nat (x mod 16)) then 1 else 0)
      else last_written ws x y d)"

text \<open>A call that asks \<open>set_pixel\<close> to clear a pixel inside the bounds.\<close>

fun clears_inside :: "bitmap \<Rightarrow> surface_op \<Rightarrow> bool" where
  "clears_inside b (SetPixel x y v) = (\<not> v \<and> in_bounds b x y)"
| "clears_inside b (SetWord v h val) = False"

definition put_word :: "int \<Rightarrow> int \<Rightarrow> int \<Rightarrow> ndarray \<Rightarrow> ndarray" where
  "put_word v h val a =
     a\<lparr>cells := (cells a)(nat v := (cells a (nat v))(nat h := word_of_int (val AND 0xFFFF)))\<rparr>"

subsection \<open>Example stores\<close>

text \<open>
  \<open>one_bitmap\<close> holds \<open>Bitmap(16, 1)\<close> at reference 0. \<open>one_buffer\<close> holds
  \<open>GraphicsBuffer(16, 1)\<close> at 0, with its dirty flag cleared, and
  \<open>Line(0, 0, 3, 0, width=16, height=1)\<close> at 1.
\<close>

definition empty_store :: store where
  "empty_store = \<lparr>objs = (\<lambda>_. Bitmap_init 0 0 None ON), next_ref = 0\<rparr>"

definition one_bitmap :: store where
  "one_bitmap = snd (new (Bitmap_init 16 1 None ON) empty_store)"

definition one_buffer :: store where
  "one_buffer = clear_dirty 0 (snd (new (Line_init 0 0 3 0 ON 16 1) (snd (new (GraphicsBuffer_init 16 1) empty_store))))"


definition frame :: "ref \<Rightarrow> store \<Rightarrow> store \<Rightarrow> bool" where
  "frame r s s' \<longleftrightarrow>
     next_ref s \<le> next_ref s' \<and>
     (\<forall>x<next_ref s.
        width (objs s' x) = width (objs s x) \<and> height (objs s' x) = height (objs s x) \<and>
        kind (objs s' x) = kind (objs s x) \<and> blend_mode (objs s' x) = blend_mode (objs s x) \<and>
        parent (objs s' x) = parent (objs s x) \<and>
        nrows (words (objs s' x)) = nrows (words (objs s x)) \<and>
        ncols (words (objs s' x)) = ncols (words (objs s x)) \<and>
        (x \<noteq> r \<longrightarrow> words (objs s' x) = words (objs s x) \<and>
                 (is_dirty (objs s x) \<longrightarrow> is_dirty (objs s' x))))"

definition flags_only :: "store \<Rightarrow> store \<Rightarrow> bool" where
  "flags_only s s' \<longleftrightarrow>
     next_ref s' = next_ref s \<and>
     (\<forall>x. objs s' x = (objs s x)\<lparr>is_dirty := is_dirty (objs s' x)\<rparr> \<and>
          (is_dirty (objs s x) \<longrightarrow> is_dirty (objs s' x)))"

definition reverse :: "ref \<Rightarrow> store \<Rightarrow> error + store" where
  "reverse r s =
     (case kind (objs s r) of
        Buffer cs \<Rightarrow> GraphicsBuffer_reverse r s
      | _ \<Rightarrow> Inr (Bitmap_reverse r s))"

datatype mutation = Write surface_op | Reset | Reverse

fun apply_mutation :: "ref \<Rightarrow> mutation \<Rightarrow> store \<Rightarrow> error + store" where
  "apply_mutation r (Write w) s = apply_op r w s"
| "apply_mutation r Reset s = Inr (reset r s)"
| "apply_mutation r Reverse s = reverse r s"

definition cmd_bytes :: "nat \<Rightarrow> nat list" where
  "cmd_bytes b = [0xF8, b AND 0xF0, push_bit 4 b AND 0xF0]"

definition data_bytes :: "nat \<Rightarrow> nat list" where
  "data_bytes b = [0xFA, b AND 0xF0, push_bit 4 b AND 0xF0]"

definition pair_tx :: "nat \<Rightarrow> nat \<Rightarrow> uint16 \<Rightarrow> nat list list" where
  "pair_tx row col w =
     [cmd_bytes (0x80 OR (if row \<ge> 32 then row - 32 else row)),
      cmd_bytes (0x80 OR (if row \<ge> 32 then col + 8 else col)),
      data_bytes (drop_bit 8 (unat w) AND 0xFF),
      data_bytes (unat w AND 0xFF)]"

definition changed :: "store \<Rightarrow> ref \<Rightarrow> ref option \<Rightarrow> nat \<times> nat \<Rightarrow> bool" where
  "changed s bmp base p =
     (case base of
        None \<Rightarrow> True
      | Some ob \<Rightarrow> cells (words (objs s bmp)) (fst p) (snd p) \<noteq> cells (words (objs s ob)) (fst p) (snd p))"

definition emitted :: "store \<Rightarrow> ref \<Rightarrow> ref option \<Rightarrow> nat \<times> nat \<Rightarrow> nat list list" where
  "emitted s bmp base p =
     (if changed s bmp base p then pair_tx (fst p) (snd p) (cells (words (objs s bmp)) (fst p) (snd p))
      else [])"

definition scannable :: "store \<Rightarrow> ref \<Rightarrow> driver \<Rightarrow> nat \<times> nat \<Rightarrow> bool" where
  "scannable s bmp d p \<longleftrightarrow>
     in_shape (words (objs s bmp)) (fst p) (snd p) \<and>
     (\<forall>ob. old_buffer d = Some ob \<longrightarrow> in_shape (words (objs s ob)) (fst p) (snd p)) \<and>
     fst p < d_height d \<and> snd p < d_width d div 16"

text \<open>The driver of main.py after its first call, \<open>set_instruction_set(True, True)\<close>.\<close>

definition graphics_driver :: driver where
  "graphics_driver =
     (case set_instruction_set True True (ST7920_init 128 64) of Inr d \<Rightarrow> d | Inl e \<Rightarrow> snd e)"

fun blend_all :: "ndarray \<Rightarrow> (BlendMode \<times> ndarray) list \<Rightarrow> error + ndarray" where
  "blend_all acc [] = Inr acc"
| "blend_all acc (d # ds) =
     (case blend (fst d) acc (snd d) of Inl e \<Rightarrow> Inl e | Inr acc' \<Rightarrow> blend_all acc' ds)"

definition painted :: "ref \<Rightarrow> ref list \<Rightarrow> (int \<times> int) set \<Rightarrow> store \<Rightarrow> store \<Rightarrow> bool" where
  "painted r ps A s s' \<longleftrightarrow>
     frame r s s' \<and> next_ref s' = next_ref s \<and> chain s' r ps \<and> shape_ok (objs s' r) \<and>
     width (objs s' r) = width (objs s r) \<and> height (objs s' r) = height (objs s r) \<and>
     kind (objs s' r) = kind (objs s r) \<and> blend_mode (objs s' r) = blend_mode (objs s r) \<and>
     (\<forall>x y. in_bounds (objs s r) x y \<longrightarrow>
        pixel (words (objs s' r)) x y = (if (x, y) \<in> A then 1 else pixel (words (objs s r)) x y))"

text \<open>
  The span of a scanline of a filled triangle: an error if a float operation raises,
  \<open>None\<close> if the row has fewer than two intersections, otherwise the rounded two
  smallest intersections. \<open>in_span\<close> says that \<open>x\<close> lies in the span of row \<open>y\<close>, and
  \<open>floats_defined\<close> that no float operation raises on a row of the triangle.
\<close>

definition row_span :: "('f::linorder) env \<Rightarrow> (int \<times> int) list \<Rightarrow> int \<Rightarrow> error + (int \<times> int) option" where
  "row_span E vertices y =
     and_then (xints E vertices y) (\<lambda>xs.
       if 2 \<le> length xs then
         and_then (fround E (sort xs ! 0)) (\<lambda>a.
         and_then (fround E (sort xs ! 1)) (\<lambda>b. Inr (Some (a, b))))
       else Inr None)"



text \<open>
  An instance of the float operations for the examples: exact rational arithmetic, with
  Python's \<open>round\<close> (a half goes to the even neighbour), and a text that leaves no ink.
\<close>

definition round_half_even :: "rat \<Rightarrow> int" where
  "round_half_even q =
     (let f = \<lfloor>q\<rfloor>; d = q - of_int f
      in if d < 1 / 2 then f else if 1 / 2 < d then f + 1 else if even f then f else f + 1)"

definition exact_env :: "rat env" where
  "exact_env =
     \<lparr>fdiv = (\<lambda>a b. Inr (of_int a / of_int b)), fmul = (\<lambda>t k. Inr (t * of_int k)),
      fadd = (\<lambda>a x. Inr (of_int a + x)), fround = (\<lambda>q. Inr (round_half_even q)),
      ink = (\<lambda>font str x y w h i j. False)\<rparr>"


definition fresh_buffer :: store where
  "fresh_buffer = snd (new (GraphicsBuffer_init 16 1) empty_store)"

definition nested_buffers :: store where
  "nested_buffers =
     (case add 0 1 (snd (new (GraphicsBuffer_init 16 1) fresh_buffer)) of
        Inr s \<Rightarrow> s | Inl e \<Rightarrow> empty_store)"

text \<open>
  The blend of one pixel of the accumulator with one pixel of a child, and the pixel a
  filled rectangle sets.
\<close>

definition blend_px :: "BlendMode \<Rightarrow> nat \<Rightarrow> nat \<Rightarrow> nat" where
  "blend_px bm p q =
     (case bm of
        ON \<Rightarrow> (if p = 1 \<or> q = 1 then 1 else 0)
      | OFF \<Rightarrow> (if p = 1 \<and> q \<noteq> 1 then 1 else 0)
      | XOR' \<Rightarrow> (if (p = 1) \<noteq> (q = 1) then 1 else 0))"

definition rect_px :: "shape \<Rightarrow> int \<Rightarrow> int \<Rightarrow> nat" where
  "rect_px k px py =
     (case k of
        Rectangle x y w h fill \<Rightarrow> (if x \<le> px \<and> px < x + w \<and> y \<le> py \<and> py < y + h then 1 else 0)
      | _ \<Rightarrow> 0)"

text \<open>
  \<open>rect_child g s c\<close>: \<open>c\<close> is a dirty filled rectangle of the size of the container \<open>g\<close>,
  added to \<open>g\<close>. \<open>root g s\<close>: \<open>g\<close> is a container that has no container itself.
\<close>

definition rect_child :: "ref \<Rightarrow> store \<Rightarrow> ref \<Rightarrow> bool" where
  "rect_child g s c \<longleftrightarrow>
     (\<exists>x y w h. kind (objs s c) = Rectangle x y w h True) \<and> is_dirty (objs s c) \<and>
     parent (objs s c) = Some g \<and> shape_ok (objs s c) \<and> c < next_ref s \<and>
     width (objs s c) = width (objs s g) \<and> height (objs s c) = height (objs s g)"

definition root :: "ref \<Rightarrow> store \<Rightarrow> bool" where
  "root g s \<longleftrightarrow>
     parent (objs s g) = None \<and> shape_ok (objs s g) \<and> g < next_ref s \<and>
     (\<exists>cs. kind (objs s g) = Buffer cs)"

text \<open>
  The scenes. With \<open>g = GraphicsBuffer(16, 1)\<close> (object 0),
  \<open>a = Rectangle(0, 0, 2, 1, True, BlendMode.ON, 16, 1)\<close> (object 1) and
  \<open>b = Rectangle(1, 0, 2, 1, True, BlendMode.OFF, 16, 1)\<close> (object 2):
  \<open>rect_scene\<close> is the store after \<open>g.add(a)\<close>, \<open>scene_ab\<close> after \<open>g.add(a); g.add(b)\<close>,
  and \<open>scene_ba\<close> after \<open>g.add(b); g.add(a)\<close>.
\<close>

definition added :: "ref \<Rightarrow> ref \<Rightarrow> store \<Rightarrow> store" where
  "added g c s = (case add g c s of Inr s' \<Rightarrow> s' | Inl e \<Rightarrow> s)"

definition two_rects :: store where
  "two_rects =
     snd (new (Rectangle_init 1 0 2 1 True OFF 16 1)
       (snd (new (Rectangle_init 0 0 2 1 True ON 16 1) fresh_buffer)))"

definition rect_scene :: store where
  "rect_scene = added 0 1 two_rects"

definition scene_ab :: store where
  "scene_ab = added 0 2 (added 0 1 two_rects)"

definition scene_ba :: store where
  "scene_ba = added 0 1 (added 0 2 two_rects)"


section \<open>Store and surface lemmas\<close>

declare circle_loop.simps [simp del]

lemma objs_upd [simp]: "objs (upd r f s) x = (if x = r then f (objs s r) else objs s x)"
  by (simp add: upd_def)

lemma next_ref_upd [simp]: "next_ref (upd r f s) = next_ref s"
  by (simp add: upd_def)

lemma objs_touch [simp]: "objs (touch A s) x = (if x \<in> A then (objs s x)\<lparr>is_dirty := True\<rparr> else objs s x)"
  by (simp add: touch_def)

lemma next_ref_touch [simp]: "next_ref (touch A s) = next_ref s"
  by (simp add: touch_def)

lemma store_eqI: "objs s = objs s' \<Longrightarrow> next_ref s = next_ref s' \<Longrightarrow> (s::store) = s'"
  by (cases s, cases s') simp

lemma chain_cong: "(\<And>x. parent (objs s' x) = parent (objs s x)) \<Longrightarrow> chain s' r ps = chain s r ps"
  by (induction ps arbitrary: r) auto

lemma chain_upd: "(\<And>b. parent (f b) = parent b) \<Longrightarrow> chain (upd x f s) r ps = chain s r ps"
  by (rule chain_cong) simp

lemma chain_touch [simp]: "chain (touch A s) r ps = chain s r ps"
  by (rule chain_cong) simp

lemma touch_upd: "touch A (upd r (\<lambda>b. b\<lparr>is_dirty := True\<rparr>) s) = touch (insert r A) s"
  by (rule store_eqI) (auto simp: fun_eq_iff)

lemma touch_single: "upd r (\<lambda>b. b\<lparr>is_dirty := True\<rparr>) s = touch {r} s"
  by (rule store_eqI) (auto simp: fun_eq_iff)

lemma dirty_chain: "chain s r ps \<Longrightarrow> dirty r s = Some (touch (set (r # ps)) s)"
proof (induction ps arbitrary: r s)
  case Nil
  then show ?case by (subst dirty.simps) (simp add: touch_single)
next
  case (Cons p ps)
  have c: "chain (upd r (\<lambda>b. b\<lparr>is_dirty := True\<rparr>) s) p ps"
    using Cons.prems by (simp add: chain_upd)
  show ?case
    using Cons.prems Cons.IH [OF c]
    by (subst dirty.simps) (simp add: touch_upd insert_commute)
qed

lemma mark_dirty_chain: "chain s r ps \<Longrightarrow> mark_dirty r s = Inr (touch (set (r # ps)) s)"
  by (simp add: mark_dirty_def dirty_chain)

lemma shift_and_one: "unat (drop_bit k (w::uint16) AND 1) = of_bool (bit w k)"
proof (cases "bit w k")
  case True
  then have "drop_bit k w AND 1 = 1" by (simp add: bit_word_iff_drop_bit_and)
  with True show ?thesis by simp
next
  case False
  then have "even (drop_bit k w)" by (simp add: bit_iff_odd_drop_bit)
  then have "drop_bit k w mod 2 = 0" by (simp add: even_iff_mod_2_eq_zero)
  then have "drop_bit k w AND 1 = 0" by (simp add: and_one_eq)
  with False show ?thesis by simp
qed

lemma bit_set: "k < 16 \<Longrightarrow> bit ((w::uint16) OR push_bit k 1) k' = (k' = k \<or> bit w k')"
  by (auto simp add: bit_or_iff bit_exp_iff)

lemma word_idx: "0 \<le> x \<Longrightarrow> x < int w \<Longrightarrow> 16 dvd w \<Longrightarrow> nat (x div 16) < w div 16"
  by (auto elim: dvdE simp: nat_less_iff zdiv_int)

lemma coords:
  assumes "0 \<le> x" "0 \<le> x'" "nat (x div 16) = nat (x' div 16)"
    "(15::nat) - nat (x mod 16) = 15 - nat (x' mod 16)"
  shows "x = (x'::int)"
proof -
  have "0 \<le> x div 16" "0 \<le> x' div 16" using assms(1,2) by simp_all
  then have d: "x div 16 = x' div 16" using assms(3) by linarith
  have "x mod 16 < 16" "0 \<le> x mod 16" "x' mod 16 < 16" "0 \<le> x' mod 16" by simp_all
  then have m: "x mod 16 = x' mod 16" using assms(4) by linarith
  show ?thesis using d m by (metis mult_div_mod_eq)
qed

lemma in_shape_px: "shape_ok b \<Longrightarrow> in_bounds b x y \<Longrightarrow> in_shape (words b) (nat y) (nat (x div 16))"
  by (auto simp: shape_ok_def in_bounds_def in_shape_def word_idx)

lemma get_pixel_in: "shape_ok (objs s r) \<Longrightarrow> in_bounds (objs s r) x y \<Longrightarrow> get_pixel r x y s = Inr (pixel (words (objs s r)) x y)"
  by (simp add: get_pixel_def getitem_def in_shape_px pixel_def shift_and_one Let_def)

lemma get_pixel_out: "\<not> in_bounds (objs s r) x y \<Longrightarrow> get_pixel r x y s = Inr 0"
  by (simp add: get_pixel_def)

lemma set_pixel_in:
  "shape_ok (objs s r) \<Longrightarrow> in_bounds (objs s r) x y \<Longrightarrow> chain s r ps \<Longrightarrow>
   set_pixel r x y True s =
     Inr (touch (set (r # ps)) (upd r (\<lambda>b. b\<lparr>words := put_bit x y (words (objs s r))\<rparr>) s))"
  by (simp add: set_pixel_def getitem_def setitem_def in_shape_px Let_def mark_dirty_chain chain_upd put_bit_def)

lemma set_pixel_clear:
  "shape_ok (objs s r) \<Longrightarrow> in_bounds (objs s r) x y \<Longrightarrow> set_pixel r x y False s = Inl OverflowError"
  by (simp add: set_pixel_def getitem_def in_shape_px Let_def)

lemma set_pixel_out: "\<not> in_bounds (objs s r) x y \<Longrightarrow> set_pixel r x y v s = Inr s"
  by (simp add: set_pixel_def)

lemma put_bit_shape [simp]: "nrows (put_bit x y a) = nrows a" "ncols (put_bit x y a) = ncols a"
  by (simp_all add: put_bit_def)

lemma pixel_put_bit:
  assumes "0 \<le> x" "0 \<le> y" "0 \<le> x'" "0 \<le> y'"
  shows "pixel (put_bit x y a) x' y' = (if x' = x \<and> y' = y then 1 else pixel a x' y')"
proof (cases "nat y' = nat y \<and> nat (x' div 16) = nat (x div 16)")
  case False
  then have "x' \<noteq> x \<or> y' \<noteq> y" by auto
  with False show ?thesis by (auto simp: pixel_def put_bit_def)
next
  case True
  then have y: "y' = y" using assms by (metis eq_nat_nat_iff)
  define k where "k = 15 - nat (x mod 16)"
  define k' where "k' = 15 - nat (x' mod 16)"
  define c where "c = cells a (nat y) (nat (x div 16))"
  have k: "k < 16" by (simp add: k_def)
  have kk: "(k' = k) = (x' = x)"
    unfolding k_def k'_def using coords [OF assms(3) assms(1)] True by auto
  have "pixel (put_bit x y a) x' y' = of_bool (bit (c OR push_bit k 1) k')"
    unfolding pixel_def put_bit_def k_def k'_def c_def using True by simp
  also have "\<dots> = (if k' = k then 1 else of_bool (bit c k'))"
    using bit_set [OF k, of c k'] by auto
  also have "of_bool (bit c k') = pixel a x' y'"
    unfolding pixel_def k'_def c_def using True by simp
  finally show ?thesis using kk y by simp
qed

lemma bit_low16: "k < 16 \<Longrightarrow> bit (word_of_int (val AND 0xFFFF) :: uint16) k = bit val k"
proof -
  assume k: "k < 16"
  have m: "(0xFFFF::int) = mask 16" by (simp add: mask_eq_exp_minus_1)
  have "bit (mask 16 :: int) k" unfolding bit_mask_iff using k by simp
  then have "bit (0xFFFF::int) k" unfolding m .
  then show ?thesis using k by (simp add: bit_word_of_int_iff bit_and_iff)
qed

lemma set_word_in:
  "shape_ok (objs s r) \<Longrightarrow> 0 \<le> v \<Longrightarrow> v < int (height (objs s r)) \<Longrightarrow> 0 \<le> h \<Longrightarrow>
   h < int (width (objs s r) div 16) \<Longrightarrow> chain s r ps \<Longrightarrow>
   set_word r v h val s =
     Inr (touch (set (r # ps)) (upd r (\<lambda>b. b\<lparr>words := put_word v h val (words (objs s r))\<rparr>) s))"
  by (simp add: set_word_def setitem_def in_shape_def shape_ok_def Let_def mark_dirty_chain
      chain_upd put_word_def nat_less_iff)

lemma set_word_out:
  "\<not> (0 \<le> v \<and> v < int (height (objs s r)) \<and> 0 \<le> h \<and> h < int (width (objs s r) div 16)) \<Longrightarrow>
   set_word r v h val s = Inr s"
  by (auto simp add: set_word_def Let_def)

lemma pixel_put_word:
  assumes "0 \<le> x" "0 \<le> y" "0 \<le> v" "0 \<le> h"
  shows "pixel (put_word v h val a) x y =
     (if v = y \<and> h = x div 16 then of_bool (bit val (15 - nat (x mod 16))) else pixel a x y)"
proof (cases "v = y \<and> h = x div 16")
  case True
  then show ?thesis by (simp add: pixel_def put_word_def bit_low16)
next
  case False
  then have "nat v \<noteq> nat y \<or> nat h \<noteq> nat (x div 16)"
    using assms by (metis eq_nat_nat_iff pos_imp_zdiv_nonneg_iff zero_less_numeral)
  with False show ?thesis by (auto simp: pixel_def put_word_def)
qed

lemma for_each_snoc:
  "for_each f (xs @ [x]) s = (case for_each f xs s of Inl e \<Rightarrow> Inl e | Inr s' \<Rightarrow> f x s')"
  by (induction xs arbitrary: s) (auto split: sum.splits)

lemma shape_ok_words: "nrows a = nrows (words b) \<Longrightarrow> ncols a = ncols (words b) \<Longrightarrow>
   shape_ok (b\<lparr>words := a\<rparr>) = shape_ok b"
  by (simp add: shape_ok_def)

lemma apply_op_step:
  assumes "chain s r ps" "shape_ok (objs s r)" "\<not> clears_inside (objs s r) w"
  shows "\<exists>s'. apply_op r w s = Inr s' \<and> chain s' r ps \<and> shape_ok (objs s' r) \<and>
     width (objs s' r) = width (objs s r) \<and> height (objs s' r) = height (objs s r) \<and>
     (\<forall>x y. in_bounds (objs s r) x y \<longrightarrow>
        pixel (words (objs s' r)) x y = last_written [w] x y (pixel (words (objs s r)) x y))"
proof (cases w)
  case (SetPixel x y v)
  show ?thesis
  proof (cases "in_bounds (objs s r) x y")
    case True
    then have nn: "0 \<le> x" "0 \<le> y" by (simp_all add: in_bounds_def)
    have v: "v" using assms(3) True by (simp add: SetPixel)
    have "\<And>xa ya. in_bounds (objs s r) xa ya \<Longrightarrow>
        pixel (put_bit x y (words (objs s r))) xa ya =
        (if x = xa \<and> y = ya then 1 else pixel (words (objs s r)) xa ya)"
      using pixel_put_bit [OF nn] by (auto simp: in_bounds_def)
    then show ?thesis
      using assms v
      by (simp add: SetPixel set_pixel_in [OF assms(2) True assms(1)] chain_upd shape_ok_def)
  next
    case False
    then show ?thesis using assms by (auto simp: SetPixel set_pixel_out)
  qed
next
  case (SetWord v h val)
  show ?thesis
  proof (cases "0 \<le> v \<and> v < int (height (objs s r)) \<and> 0 \<le> h \<and> h < int (width (objs s r) div 16)")
    case True
    then show ?thesis
      using assms
      by (auto simp: SetWord set_word_in chain_upd shape_ok_def
          put_word_def pixel_put_word [unfolded put_word_def] in_bounds_def)
  next
    case False
    have "\<And>x y. in_bounds (objs s r) x y \<Longrightarrow> \<not> (v = y \<and> h = x div 16)"
      using False assms(2) word_idx [of _ "width (objs s r)"]
      by (auto simp: in_bounds_def shape_ok_def nat_less_iff)
    then show ?thesis using assms False by (auto simp: SetWord set_word_out [OF False])
  qed
qed

lemma clears_inside_cong:
  "width b' = width b \<Longrightarrow> height b' = height b \<Longrightarrow> clears_inside b' w = clears_inside b w"
  by (cases w) (simp_all add: in_bounds_def)

lemma last_written_snoc:
  "last_written (w # ws) x y d = last_written [w] x y (last_written ws x y d)"
  by (cases w) auto

lemma run_ops:
  assumes "chain s r ps" "shape_ok (objs s r)"
  shows "\<forall>w\<in>set ws. \<not> clears_inside (objs s r) w \<Longrightarrow>
     \<exists>s'. for_each (apply_op r) ws s = Inr s' \<and> chain s' r ps \<and> shape_ok (objs s' r) \<and>
     width (objs s' r) = width (objs s r) \<and> height (objs s' r) = height (objs s r) \<and>
     (\<forall>x y. in_bounds (objs s r) x y \<longrightarrow>
        pixel (words (objs s' r)) x y = last_written (rev ws) x y (pixel (words (objs s r)) x y))"
proof (induction ws rule: rev_induct)
  case Nil
  then show ?case using assms by simp
next
  case (snoc w ws)
  then obtain s1 where s1: "for_each (apply_op r) ws s = Inr s1" "chain s1 r ps" "shape_ok (objs s1 r)"
    "width (objs s1 r) = width (objs s r)" "height (objs s1 r) = height (objs s r)"
    "\<forall>x y. in_bounds (objs s r) x y \<longrightarrow>
        pixel (words (objs s1 r)) x y = last_written (rev ws) x y (pixel (words (objs s r)) x y)"
    by auto
  have ib: "\<And>x y. in_bounds (objs s1 r) x y = in_bounds (objs s r) x y"
    using s1(4,5) by (simp add: in_bounds_def)
  have nc: "\<not> clears_inside (objs s1 r) w"
    using snoc.prems clears_inside_cong [OF s1(4,5)] by simp
  from apply_op_step [OF s1(2,3) nc] obtain s2 where s2: "apply_op r w s1 = Inr s2"
    "chain s2 r ps" "shape_ok (objs s2 r)"
    "width (objs s2 r) = width (objs s1 r)" "height (objs s2 r) = height (objs s1 r)"
    "\<forall>x y. in_bounds (objs s1 r) x y \<longrightarrow>
        pixel (words (objs s2 r)) x y = last_written [w] x y (pixel (words (objs s1 r)) x y)"
    by blast
  show ?case
    using s1 s2 ib by (simp add: for_each_snoc last_written_snoc [of w "rev ws"])
qed

lemma frame_refl [simp]: "frame r s s"
  by (simp add: frame_def)

lemma frame_trans: "frame r s s1 \<Longrightarrow> frame r s1 s2 \<Longrightarrow> frame r s s2"
  by (auto simp: frame_def)

lemma flags_only_refl [simp]: "flags_only s s"
  by (simp add: flags_only_def)

lemma flags_only_trans:
  assumes "flags_only s s1" "flags_only s1 s2"
  shows "flags_only s s2"
proof -
  have "\<And>x. objs s2 x = (objs s x)\<lparr>is_dirty := is_dirty (objs s2 x)\<rparr>"
  proof -
    fix x
    have a: "objs s1 x = (objs s x)\<lparr>is_dirty := is_dirty (objs s1 x)\<rparr>"
      and b: "objs s2 x = (objs s1 x)\<lparr>is_dirty := is_dirty (objs s2 x)\<rparr>"
      using assms by (simp_all add: flags_only_def)
    show "objs s2 x = (objs s x)\<lparr>is_dirty := is_dirty (objs s2 x)\<rparr>"
      by (subst b, subst a) simp
  qed
  then show ?thesis using assms by (simp add: flags_only_def)
qed

lemma flags_only_upd [simp]: "flags_only s (upd r (\<lambda>b. b\<lparr>is_dirty := True\<rparr>) s)"
  by (simp add: flags_only_def)

lemma dirty_flags:
  assumes "dirty r s = Some s'"
  shows "flags_only s s'"
proof (rule dirty.raw_induct [where P = "\<lambda>r s s'. flags_only s s'", OF _ assms])
  fix dirty r s ra
  assume IH: "\<And>s b y. dirty s b = Some y \<Longrightarrow> flags_only b y"
    and eq: "(case parent (objs s r) of
        None \<Rightarrow> Some (upd r (\<lambda>b. b\<lparr>is_dirty := True\<rparr>) s)
      | Some p \<Rightarrow> dirty p (upd r (\<lambda>b. b\<lparr>is_dirty := True\<rparr>) s)) = Some ra"
  show "flags_only s ra"
  proof (cases "parent (objs s r)")
    case None
    with eq show ?thesis by auto
  next
    case (Some p)
    with eq have "dirty p (upd r (\<lambda>b. b\<lparr>is_dirty := True\<rparr>) s) = Some ra" by simp
    from IH [OF this] show ?thesis
      using flags_only_trans [OF flags_only_upd] by blast
  qed
qed

lemma field_simps_flags:
  assumes "flags_only s s'"
  shows "width (objs s' x) = width (objs s x)" "height (objs s' x) = height (objs s x)"
    "words (objs s' x) = words (objs s x)" "kind (objs s' x) = kind (objs s x)"
    "parent (objs s' x) = parent (objs s x)" "blend_mode (objs s' x) = blend_mode (objs s x)"
    "next_ref s' = next_ref s" "is_dirty (objs s x) \<Longrightarrow> is_dirty (objs s' x)"
proof -
  have a: "objs s' x = (objs s x)\<lparr>is_dirty := is_dirty (objs s' x)\<rparr>"
    using assms by (simp add: flags_only_def)
  show "width (objs s' x) = width (objs s x)" by (subst a) simp
  show "height (objs s' x) = height (objs s x)" by (subst a) simp
  show "words (objs s' x) = words (objs s x)" by (subst a) simp
  show "kind (objs s' x) = kind (objs s x)" by (subst a) simp
  show "parent (objs s' x) = parent (objs s x)" by (subst a) simp
  show "blend_mode (objs s' x) = blend_mode (objs s x)" by (subst a) simp
  show "next_ref s' = next_ref s" using assms by (simp add: flags_only_def)
  show "is_dirty (objs s x) \<Longrightarrow> is_dirty (objs s' x)" using assms by (simp add: flags_only_def)
qed

lemma flags_only_frame: "flags_only s s' \<Longrightarrow> frame r s s'"
  by (simp add: frame_def field_simps_flags)

lemma mark_dirty_flags: "mark_dirty r s = Inr s' \<Longrightarrow> flags_only s s'"
  by (auto simp: mark_dirty_def dirty_flags split: option.splits)

lemma frame_upd:
  assumes "\<And>b. width (f b) = width b \<and> height (f b) = height b \<and> kind (f b) = kind b \<and>
     blend_mode (f b) = blend_mode b \<and> parent (f b) = parent b \<and>
     nrows (words (f b)) = nrows (words b) \<and> ncols (words (f b)) = ncols (words b)"
  shows "frame r s (upd r f s)"
  by (simp add: frame_def assms)

lemma setitem_shape: "setitem a i j v = Inr a' \<Longrightarrow> nrows a' = nrows a \<and> ncols a' = ncols a"
  by (auto simp: setitem_def split: if_splits)

lemma store_words_frame:
  assumes "setitem (words (objs s r)) i j v = Inr a'" "mark_dirty r (upd r (\<lambda>b. b\<lparr>words := a'\<rparr>) s) = Inr s'"
  shows "frame r s s'"
proof -
  have "frame r s (upd r (\<lambda>b. b\<lparr>words := a'\<rparr>) s)"
    using setitem_shape [OF assms(1)] by (simp add: frame_def)
  moreover have "frame r (upd r (\<lambda>b. b\<lparr>words := a'\<rparr>) s) s'"
    using assms(2) by (rule flags_only_frame [OF mark_dirty_flags])
  ultimately show ?thesis by (rule frame_trans)
qed

lemma set_pixel_frame:
  assumes "set_pixel r x y v s = Inr s'"
  shows "frame r s s'"
proof (cases "in_bounds (objs s r) x y")
  case False
  with assms show ?thesis by (simp add: set_pixel_def)
next
  case True
  with assms obtain old a' where
    "setitem (words (objs s r)) (nat y) (nat (x div 16)) old = Inr a'"
    "mark_dirty r (upd r (\<lambda>b. b\<lparr>words := a'\<rparr>) s) = Inr s'"
    by (simp add: set_pixel_def Let_def split: sum.splits if_splits)
  then show ?thesis by (rule store_words_frame)
qed

lemma set_word_frame:
  assumes "set_word r v h val s = Inr s'"
  shows "frame r s s'"
proof (cases "0 \<le> v \<and> v < int (height (objs s r)) \<and> 0 \<le> h \<and> h < int (width (objs s r) div 16)")
  case False
  with assms show ?thesis by (auto simp add: set_word_def Let_def)
next
  case True
  with assms obtain a' where
    "setitem (words (objs s r)) (nat v) (nat h) (word_of_int (val AND 0xFFFF)) = Inr a'"
    "mark_dirty r (upd r (\<lambda>b. b\<lparr>words := a'\<rparr>) s) = Inr s'"
    by (simp add: set_word_def Let_def split: sum.splits)
  then show ?thesis by (rule store_words_frame)
qed

lemma reset_frame: "frame r s (reset r s)"
  unfolding reset_def by (rule frame_upd) (simp add: map_cells_def)

lemma Bitmap_reverse_frame: "frame r s (Bitmap_reverse r s)"
  unfolding Bitmap_reverse_def by (rule frame_upd) (simp add: map_cells_def)

lemma clear_dirty_frame: "frame r s (clear_dirty r s)"
  by (simp add: clear_dirty_def frame_def)

lemma for_each_frame:
  assumes "\<And>a s s'. f a s = Inr s' \<Longrightarrow> frame r s s'"
  shows "for_each f xs s = Inr s' \<Longrightarrow> frame r s s'"
proof (induction xs arbitrary: s)
  case Nil
  then show ?case by simp
next
  case (Cons a xs)
  then show ?case
    by (auto split: sum.splits dest!: assms intro: frame_trans)
qed

lemma xor_cell_frame:
  assumes "xor_cell r p s = Inr s'"
  shows "frame r s s'"
proof -
  from assms obtain old a' where "setitem (words (objs s r)) (fst p) (snd p) old = Inr a'"
    "s' = upd r (\<lambda>b. b\<lparr>words := a'\<rparr>) s"
    by (auto simp: xor_cell_def split: sum.splits)
  then show ?thesis using setitem_shape by (simp add: frame_def)
qed

lemma GraphicsBuffer_reverse_frame: "GraphicsBuffer_reverse r s = Inr s' \<Longrightarrow> frame r s s'"
  unfolding GraphicsBuffer_reverse_def by (rule for_each_frame [OF xor_cell_frame])

lemma set_pixels_frame: "set_pixels r ps s = Inr s' \<Longrightarrow> frame r s s'"
  unfolding set_pixels_def by (rule for_each_frame [OF set_pixel_frame])

lemma reach_prefix: "\<exists>ys. reach n s seen = seen @ ys"
proof (induction n arbitrary: seen)
  case 0
  then show ?case by simp
next
  case (Suc n)
  show ?case
  proof (cases "filter (\<lambda>x. x \<notin> set seen) (concat (map (\<lambda>r. refs_of (objs s r)) seen))")
    case Nil
    then show ?thesis by simp
  next
    case (Cons x xs)
    from Suc [of "seen @ [x]"] obtain ys where "reach n s (seen @ [x]) = (seen @ [x]) @ ys" by blast
    with Cons show ?thesis by simp
  qed
qed

lemma reach_head: "\<exists>ys. reach n s [r] = r # ys"
  using reach_prefix [of n s "[r]"] by auto

lemma words_rename [simp]: "words (rename f b) = words b"
  by (simp add: rename_def)

lemma deepcopy_fresh: "fst (deepcopy r s) = next_ref s"
  by (simp add: deepcopy_def Let_def)

lemma deepcopy_old: "x < next_ref s \<Longrightarrow> objs (snd (deepcopy r s)) x = objs s x"
  by (simp add: deepcopy_def Let_def)

lemma deepcopy_next: "next_ref s < next_ref (snd (deepcopy r s))"
proof -
  obtain ys where "reach (next_ref s) s [r] = r # ys" using reach_head by blast
  then show ?thesis by (simp add: deepcopy_def Let_def)
qed

lemma deepcopy_words: "words (objs (snd (deepcopy r s)) (next_ref s)) = words (objs s r)"
proof -
  obtain ys where "reach (next_ref s) s [r] = r # ys" using reach_head by blast
  then show ?thesis by (simp add: deepcopy_def Let_def)
qed

lemma apply_mutation_frame: "apply_mutation r m s = Inr s' \<Longrightarrow> frame r s s'"
proof (cases m)
  case (Write w)
  assume "apply_mutation r m s = Inr s'"
  with Write show ?thesis by (cases w) (auto dest: set_pixel_frame set_word_frame)
next
  case Reset
  assume "apply_mutation r m s = Inr s'"
  with Reset show ?thesis using reset_frame by auto
next
  case Reverse
  assume "apply_mutation r m s = Inr s'"
  with Reverse show ?thesis
    using Bitmap_reverse_frame GraphicsBuffer_reverse_frame
    by (auto simp: reverse_def split: shape.splits)
qed

lemma write_gdram_buffer_baseline:
  assumes "write_gdram_buffer bmp s d = Inr (s1, d1)"
  shows "old_buffer d1 = Some (next_ref s)" "s1 = snd (deepcopy bmp s)"
  using assms
  by (auto simp: write_gdram_buffer_def deepcopy_fresh split: sum.splits prod.splits
      dest: arg_cong [where f = fst] arg_cong [where f = snd])

lemma spi_send: "spi (send b is_data d) = spi d @ [if is_data then data_bytes b else cmd_bytes b]"
  by (simp add: send_def cmd_bytes_def data_bytes_def Let_def)

lemma send_fields [simp]:
  "old_buffer (send b i d) = old_buffer d" "d_height (send b i d) = d_height d"
  "d_width (send b i d) = d_width d"
  by (simp_all add: send_def Let_def)

lemma write_cell_ok:
  assumes "scannable s bmp d p"
  shows "\<exists>d'. write_cell s bmp p d = Inr d' \<and> spi d' = spi d @ emitted s bmp (old_buffer d) p \<and>
     old_buffer d' = old_buffer d \<and> d_height d' = d_height d \<and> d_width d' = d_width d"
proof (cases "old_buffer d")
  case None
  with assms show ?thesis
    by (simp add: write_cell_def scannable_def getitem_def set_gdram_address_def Let_def
        write_gdram_word_def send_cmd_def send_data_def spi_send emitted_def changed_def pair_tx_def)
next
  case (Some ob)
  with assms show ?thesis
    by (simp add: write_cell_def scannable_def getitem_def set_gdram_address_def Let_def
        write_gdram_word_def send_cmd_def send_data_def spi_send emitted_def changed_def pair_tx_def)
qed

lemma scan_ok:
  assumes "\<forall>p\<in>set ps. scannable s bmp d p"
  shows "\<exists>d'. for_each (write_cell s bmp) ps d = Inr d' \<and>
     spi d' = spi d @ concat (map (emitted s bmp (old_buffer d)) ps) \<and>
     old_buffer d' = old_buffer d \<and> d_height d' = d_height d \<and> d_width d' = d_width d"
  using assms
proof (induction ps arbitrary: d)
  case Nil
  then show ?case by simp
next
  case (Cons p ps)
  from Cons.prems have "scannable s bmp d p" by simp
  from write_cell_ok [OF this] obtain d1 where d1: "write_cell s bmp p d = Inr d1"
    "spi d1 = spi d @ emitted s bmp (old_buffer d) p"
    "old_buffer d1 = old_buffer d" "d_height d1 = d_height d" "d_width d1 = d_width d"
    by blast
  have "\<forall>q\<in>set ps. scannable s bmp d1 q"
    using Cons.prems d1(3,4,5) by (simp add: scannable_def)
  from Cons.IH [OF this] obtain d2 where d2: "for_each (write_cell s bmp) ps d1 = Inr d2"
    "spi d2 = spi d1 @ concat (map (emitted s bmp (old_buffer d1)) ps)"
    "old_buffer d2 = old_buffer d1" "d_height d2 = d_height d1" "d_width d2 = d_width d1"
    by blast
  show ?case using d1 d2 by simp
qed

lemma set_positions: "set (positions h w) = {p. fst p < h \<and> snd p < w}"
  by (auto simp: positions_def)

lemma distinct_pairs:
  "distinct xs \<Longrightarrow> distinct ys \<Longrightarrow> distinct (concat (map (\<lambda>i. map (\<lambda>j. (i, j)) ys) xs))"
  by (induction xs) (auto simp: distinct_map inj_on_def)

lemma distinct_positions: "distinct (positions h w)"
  unfolding positions_def by (rule distinct_pairs) simp_all

lemma concat_single:
  "distinct ps \<Longrightarrow> p \<in> set ps \<Longrightarrow> (\<And>q. q \<in> set ps \<Longrightarrow> q \<noteq> p \<Longrightarrow> f q = []) \<Longrightarrow>
   concat (map f ps) = f p"
proof (induction ps)
  case Nil
  then show ?case by simp
next
  case (Cons a ps)
  show ?case
  proof (cases "a = p")
    case True
    then have "\<And>q. q \<in> set ps \<Longrightarrow> f q = []" using Cons.prems by auto
    then have "concat (map f ps) = []" by simp
    with True show ?thesis by simp
  next
    case False
    then have "f a = []" using Cons.prems by auto
    moreover have "concat (map f ps) = f p" using Cons False by auto
    ultimately show ?thesis by simp
  qed
qed

lemma write_cell_dims:
  assumes "write_cell s bmp p d = Inr d'"
  shows "d_height d' = d_height d \<and> d_width d' = d_width d"
proof -
  have a: "\<And>d2. set_gdram_address (fst p) (snd p) d = Inr d2 \<Longrightarrow>
      d_height d2 = d_height d \<and> d_width d2 = d_width d"
    by (auto simp: set_gdram_address_def Let_def send_cmd_def split: if_splits)
  have b: "\<And>w d2. d_height (write_gdram_word w d2) = d_height d2 \<and>
      d_width (write_gdram_word w d2) = d_width d2"
    by (simp add: write_gdram_word_def send_data_def)
  from assms show ?thesis
    by (auto simp: write_cell_def b split: sum.splits if_splits dest: a)
qed

lemma scan_dims:
  "for_each (write_cell s bmp) ps d = Inr d' \<Longrightarrow> d_height d' = d_height d \<and> d_width d' = d_width d"
proof (induction ps arbitrary: d)
  case Nil
  then show ?case by simp
next
  case (Cons p ps)
  from Cons.prems obtain d1 where "write_cell s bmp p d = Inr d1"
    "for_each (write_cell s bmp) ps d1 = Inr d'"
    by (auto split: sum.splits)
  then show ?case using write_cell_dims Cons.IH by metis
qed

lemma write_ok:
  assumes "nrows (words (objs s bmp)) = height (objs s bmp)"
    and "ncols (words (objs s bmp)) = width (objs s bmp) div 16"
    and "height (objs s bmp) \<le> d_height d" and "width (objs s bmp) div 16 \<le> d_width d div 16"
    and "\<And>ob. old_buffer d = Some ob \<Longrightarrow>
       nrows (words (objs s ob)) = height (objs s bmp) \<and> ncols (words (objs s ob)) = width (objs s bmp) div 16"
  shows "\<exists>d1. write_gdram_buffer bmp s d = Inr (snd (deepcopy bmp s), d1) \<and>
     spi d1 = spi d @ concat (map (emitted s bmp (old_buffer d))
                (positions (height (objs s bmp)) (width (objs s bmp) div 16))) \<and>
     old_buffer d1 = Some (next_ref s) \<and> d_height d1 = d_height d \<and> d_width d1 = d_width d"
proof -
  have "\<forall>p\<in>set (positions (height (objs s bmp)) (width (objs s bmp) div 16)). scannable s bmp d p"
    using assms by (auto simp: set_positions scannable_def in_shape_def)
  from scan_ok [OF this] obtain d' where d':
    "for_each (write_cell s bmp) (positions (height (objs s bmp)) (width (objs s bmp) div 16)) d = Inr d'"
    "spi d' = spi d @ concat (map (emitted s bmp (old_buffer d))
                (positions (height (objs s bmp)) (width (objs s bmp) div 16)))"
    "d_height d' = d_height d" "d_width d' = d_width d"
    by blast
  show ?thesis
    using d' by (simp add: write_gdram_buffer_def deepcopy_fresh split: prod.splits)
      (metis deepcopy_fresh fst_conv snd_conv)
qed

lemma one_bitmap_obj: "objs one_bitmap 0 = Bitmap_init 16 1 None ON"
  by (simp add: one_bitmap_def new_def empty_store_def)

lemma one_bitmap_next: "next_ref one_bitmap = 1"
  by (simp add: one_bitmap_def new_def empty_store_def)

lemma positions_1_1: "positions (Suc 0) (Suc 0) = [(0, 0)]"
  by (simp add: positions_def)

lemma then_doE:
  assumes "then_do m f = Some (Inr y)"
  obtains x where "m = Some (Inr x)" "f x = Some (Inr y)"
  using assms by (auto simp: then_do_def split: option.splits sum.splits)

lemma line_loop_frame:
  assumes "line_loop r c x1 y1 err s = Some res"
  shows "\<forall>s'. res = Inr s' \<longrightarrow> frame r s s'"
proof (rule line_loop.raw_induct
    [where P = "\<lambda>r c x1 y1 err s res. \<forall>s'. res = Inr s' \<longrightarrow> frame r s s'", OF _ assms])
  fix line_loop r c x1 y1 err s ra
  assume IH: "\<And>r c x1 y1 err s y. line_loop r c x1 y1 err s = Some y \<Longrightarrow> \<forall>s'. y = Inr s' \<longrightarrow> frame r s s'"
    and eq: "(case c of
      (x2, y2, dx, dy, sx, sy) \<Rightarrow>
        case set_pixel r x1 y1 True s of Inl e \<Rightarrow> Some (Inl e)
        | Inr s1 \<Rightarrow>
            if x1 = x2 \<and> y1 = y2 then Some (Inr s1)
            else let e2 = 2 * err; err1 = if dy \<le> e2 then err + dy else err;
                     x1' = if dy \<le> e2 then x1 + sx else x1;
                     err2 = if e2 \<le> dx then err1 + dx else err1;
                     y1' = if e2 \<le> dx then y1 + sy else y1
                 in line_loop r c x1' y1' err2 s1) = Some ra"
  show "\<forall>s'. ra = Inr s' \<longrightarrow> frame r s s'"
  proof (intro allI impI)
    fix s'
    assume ra: "ra = Inr s'"
    obtain x2 y2 dx dy sx sy where c: "c = (x2, y2, dx, dy, sx, sy)" by (cases c) auto
    from eq ra c obtain s1 where s1: "set_pixel r x1 y1 True s = Inr s1"
      by (auto split: sum.splits)
    have f1: "frame r s s1" using s1 by (rule set_pixel_frame)
    show "frame r s s'"
    proof (cases "x1 = x2 \<and> y1 = y2")
      case True
      with eq ra c s1 have "s' = s1" by simp
      with f1 show ?thesis by simp
    next
      case False
      with eq ra c s1 obtain x1' y1' err2 where "line_loop r c x1' y1' err2 s1 = Some (Inr s')"
        by (auto simp: Let_def)
      from IH [OF this] have "frame r s1 s'" by simp
      with f1 show ?thesis by (rule frame_trans)
    qed
  qed
qed

lemma draw_wrap_frame:
  assumes "frame r (reset r s) s1"
  shows "frame r s (clear_dirty r s1)"
proof -
  have "frame r s s1" using reset_frame assms by (rule frame_trans)
  then show ?thesis using clear_dirty_frame by (rule frame_trans)
qed

lemma Line_draw_frame:
  assumes "Line_draw r w h s = Some (Inr s')"
  shows "frame r s s'"
proof (cases "is_dirty (objs s r)")
  case False
  with assms show ?thesis by (simp add: Line_draw_def)
next
  case True
  with assms obtain x1 y1 x2 y2 where k: "kind (objs s r) = Line x1 y1 x2 y2"
    by (auto simp: Line_draw_def split: shape.splits)
  with assms True obtain c a b e s1 where l: "line_loop r c a b e (reset r s) = Some (Inr s1)"
    and s': "s' = clear_dirty r s1"
    by (auto simp: Line_draw_def Let_def elim!: then_doE)
  from line_loop_frame [OF l] have "frame r (reset r s) s1" by simp
  then show ?thesis unfolding s' by (rule draw_wrap_frame)
qed

lemma new_fresh: "fst (new b s) = next_ref s" "next_ref (snd (new b s)) = Suc (next_ref s)"
  "x < next_ref s \<Longrightarrow> objs (snd (new b s)) x = objs s x"
  by (simp_all add: new_def)

lemma temp_line_frame:
  assumes "temp_line x1 y1 x2 y2 bm w h s = Some (Inr (t, s'))"
  shows "frame r s s'" "t = next_ref s" "next_ref s < next_ref s'"
proof -
  obtain s1 where n: "new (Line_init x1 y1 x2 y2 bm w h) s = (next_ref s, s1)"
    by (simp add: new_def)
  with assms have t: "t = next_ref s" and d: "Line_draw (next_ref s) w h s1 = Some (Inr s')"
    by (auto simp: temp_line_def elim!: then_doE)
  from Line_draw_frame [OF d] have f: "frame (next_ref s) s1 s'" .
  have s1: "s1 = snd (new (Line_init x1 y1 x2 y2 bm w h) s)" using n by simp
  show "t = next_ref s" by (rule t)
  show "next_ref s < next_ref s'" using f by (simp add: frame_def s1 new_fresh)
  show "frame r s s'" using f by (auto simp add: frame_def s1 new_fresh)
qed

lemma inplace_shape: "inplace f a b = Inr a' \<Longrightarrow> nrows a' = nrows a \<and> ncols a' = ncols a"
  by (auto simp: inplace_def split: if_splits)

lemma blend_shape: "blend bm a b = Inr a' \<Longrightarrow> nrows a' = nrows a \<and> ncols a' = ncols a"
  by (cases bm) (auto simp: blend_def dest: inplace_shape)

lemma merge_lines_frame:
  assumes "merge_lines r t ts s = Inr s'"
  shows "frame r s s'"
proof -
  from assms obtain m a where "inplace (OR) (words (objs s r)) m = Inr a"
    and s': "s' = upd r (\<lambda>b. b\<lparr>words := a\<rparr>) s"
    by (auto simp: merge_lines_def split: sum.splits)
  then show ?thesis using inplace_shape by (simp add: frame_def)
qed

lemma circle_points_frame: "circle_points r x0 y0 x y s = Inr s' \<Longrightarrow> frame r s s'"
  unfolding circle_points_def by (rule set_pixels_frame)

lemma circle_fill_frame:
  assumes "circle_fill r x0 y0 x y s = Inr s'"
  shows "frame r s s'"
proof -
  from assms obtain s1 where
    a: "set_pixels r (concat (map (\<lambda>px. [(px, y0 + y), (px, y0 - y)]) [x0 - x..x0 + x])) s = Inr s1"
    and b: "set_pixels r (concat (map (\<lambda>px. [(px, y0 + x), (px, y0 - x)]) [x0 - y..x0 + y])) s1 = Inr s'"
    by (auto simp: circle_fill_def split: sum.splits)
  from set_pixels_frame [OF a] set_pixels_frame [OF b] show ?thesis by (rule frame_trans)
qed

lemma circle_step_frame:
  "(if fill then circle_fill r x0 y0 x y s else circle_points r x0 y0 x y s) = Inr s' \<Longrightarrow> frame r s s'"
  by (cases fill) (simp_all add: circle_fill_frame circle_points_frame)

lemma circle_loop_frame: "circle_loop r x0 y0 fill x y d s = Inr s' \<Longrightarrow> frame r s s'"
proof (induction r x0 y0 fill x y d s rule: circle_loop.induct)
  case (1 r x0 y0 fill x y d s)
  note eq = "1.prems" [unfolded circle_loop.simps [of r x0 y0 fill x y d s]]
  show ?case
  proof (cases "x \<le> y")
    case False
    with eq show ?thesis by simp
  next
    case True
    with eq obtain s1 where
      s1: "(if fill then circle_fill r x0 y0 x y s else circle_points r x0 y0 x y s) = Inr s1"
      by (simp split: sum.splits)
    have f1: "frame r s s1" using s1 by (rule circle_step_frame)
    show ?thesis
    proof (cases "d < 0")
      case d: True
      from eq True s1 d
      have "circle_loop r x0 y0 fill (x + 1) y (d + (2 * x + 3)) s1 = Inr s'" by simp
      from "1.IH"(1) [OF True s1 d this] have "frame r s1 s'" .
      with f1 show ?thesis by (rule frame_trans)
    next
      case d: False
      from eq True s1 d
      have "circle_loop r x0 y0 fill (x + 1) (y - 1) (d + (2 * (x - y) + 5)) s1 = Inr s'" by simp
      from "1.IH"(2) [OF True s1 d this] have "frame r s1 s'" .
      with f1 show ?thesis by (rule frame_trans)
    qed
  qed
qed

lemma Circle_draw_frame:
  assumes "Circle_draw r w h s = Some (Inr s')"
  shows "frame r s s'"
proof (cases "is_dirty (objs s r)")
  case False
  with assms show ?thesis by (simp add: Circle_draw_def)
next
  case True
  with assms obtain xc yc radius fill s1 where
    "circle_loop r xc yc fill 0 radius (1 - radius) (reset r s) = Inr s1" "s' = clear_dirty r s1"
    by (auto simp: Circle_draw_def split: shape.splits sum.splits)
  then show ?thesis
    using draw_wrap_frame [OF circle_loop_frame] by simp
qed

lemma Rectangle_draw_frame:
  assumes "Rectangle_draw r wd ht s = Some (Inr s')"
  shows "frame r s s'"
proof (cases "is_dirty (objs s r)")
  case False
  with assms show ?thesis by (simp add: Rectangle_draw_def)
next
  case True
  with assms obtain x y w h fill where k: "kind (objs s r) = Rectangle x y w h fill"
    by (auto simp: Rectangle_draw_def split: shape.splits)
  define bm where "bm = blend_mode (objs (reset r s) r)"
  show ?thesis
  proof (cases fill)
    case fill: True
    with assms True k obtain s5 where
      "set_pixels r (concat (map (\<lambda>yy. map (\<lambda>xx. (xx, yy)) [x..x + w - 1]) [y..y + h - 1])) (reset r s) = Inr s5"
      and s': "s' = clear_dirty r s5"
      by (auto simp: Rectangle_draw_def Let_def elim!: then_doE)
    from set_pixels_frame [OF this(1)] show ?thesis unfolding s' by (rule draw_wrap_frame)
  next
    case fill: False
    with assms True k obtain top s1 left s2 right s3 bottom s4 s5 where
      t1: "temp_line x y (x + w - 1) y bm wd ht (reset r s) = Some (Inr (top, s1))"
      and t2: "temp_line x y x (y + h - 1) bm wd ht s1 = Some (Inr (left, s2))"
      and t3: "temp_line (x + w - 1) y (x + w - 1) (y + h - 1) bm wd ht s2 = Some (Inr (right, s3))"
      and t4: "temp_line x (y + h - 1) (x + w - 1) (y + h - 1) bm wd ht s3 = Some (Inr (bottom, s4))"
      and m: "merge_lines r top [left, right, bottom] s4 = Inr s5"
      and s': "s' = clear_dirty r s5"
      unfolding Rectangle_draw_def bm_def
      by (auto simp: Let_def elim!: then_doE)
    have "frame r (reset r s) s1" using t1 by (rule temp_line_frame(1))
    moreover have "frame r s1 s2" using t2 by (rule temp_line_frame(1))
    moreover have "frame r s2 s3" using t3 by (rule temp_line_frame(1))
    moreover have "frame r s3 s4" using t4 by (rule temp_line_frame(1))
    moreover have "frame r s4 s5" using m by (rule merge_lines_frame)
    ultimately have "frame r (reset r s) s5" by (blast intro: frame_trans)
    then show ?thesis unfolding s' by (rule draw_wrap_frame)
  qed
qed

lemma fill_row_frame: "fill_row E r vs y s = Inr s' \<Longrightarrow> frame r s s'"
  by (auto simp: fill_row_def and_then_def frame_refl
      split: if_splits list.splits sum.splits dest: set_pixels_frame)

lemma Triangle_draw_frame:
  assumes "Triangle_draw E r wd ht s = Some (Inr s')"
  shows "frame r s s'"
proof (cases "is_dirty (objs s r)")
  case False
  with assms show ?thesis by (simp add: Triangle_draw_def)
next
  case True
  with assms obtain x1 y1 x2 y2 x3 y3 fill where k: "kind (objs s r) = Triangle x1 y1 x2 y2 x3 y3 fill"
    by (auto simp: Triangle_draw_def split: shape.splits)
  define bm where "bm = blend_mode (objs (reset r s) r)"
  show ?thesis
  proof (cases fill)
    case fill: True
    with assms True k obtain rows s5 where
      "for_each (fill_row E r [(x1, y1), (x2, y2), (x3, y3)]) rows (reset r s) = Inr s5"
      and s': "s' = clear_dirty r s5"
      by (auto simp: Triangle_draw_def Let_def elim!: then_doE)
    from for_each_frame [where f = "fill_row E r [(x1, y1), (x2, y2), (x3, y3)]", OF fill_row_frame this(1)]
    show ?thesis unfolding s' by (rule draw_wrap_frame)
  next
    case fill: False
    with assms True k obtain l1 s1 l2 s2 l3 s3 s5 where
      t1: "temp_line x1 y1 x2 y2 bm wd ht (reset r s) = Some (Inr (l1, s1))"
      and t2: "temp_line x2 y2 x3 y3 bm wd ht s1 = Some (Inr (l2, s2))"
      and t3: "temp_line x3 y3 x1 y1 bm wd ht s2 = Some (Inr (l3, s3))"
      and m: "merge_lines r l1 [l2, l3] s3 = Inr s5"
      and s': "s' = clear_dirty r s5"
      unfolding Triangle_draw_def bm_def
      by (auto simp: Let_def elim!: then_doE)
    have "frame r (reset r s) s1" using t1 by (rule temp_line_frame(1))
    moreover have "frame r s1 s2" using t2 by (rule temp_line_frame(1))
    moreover have "frame r s2 s3" using t3 by (rule temp_line_frame(1))
    moreover have "frame r s3 s5" using m by (rule merge_lines_frame)
    ultimately have "frame r (reset r s) s5" by (blast intro: frame_trans)
    then show ?thesis unfolding s' by (rule draw_wrap_frame)
  qed
qed

lemma DrawableText_draw_frame:
  assumes "DrawableText_draw E r wd ht s = Some (Inr s')"
  shows "frame r s s'"
proof (cases "is_dirty (objs s r)")
  case False
  with assms show ?thesis by (simp add: DrawableText_draw_def)
next
  case True
  with assms obtain str font x y s1 where
    l: "for_each (\<lambda>p s. if ink E font str x y wd ht (snd p) (fst p)
                         then set_pixel r (int (snd p)) (int (fst p)) True s else Inr s)
                  (positions ht wd) (reset r s) = Inr s1"
    and s': "s' = clear_dirty r s1"
    by (auto simp: DrawableText_draw_def split: shape.splits sum.splits)
  have "\<And>a s s'. (if ink E font str x y wd ht (snd a) (fst a)
                         then set_pixel r (int (snd a)) (int (fst a)) True s else Inr s) = Inr s'
       \<Longrightarrow> frame r s s'"
    by (auto split: if_splits dest: set_pixel_frame)
  from for_each_frame [where f = "\<lambda>p s. if ink E font str x y wd ht (snd p) (fst p)
                         then set_pixel r (int (snd p)) (int (fst p)) True s else Inr s", OF this l]
  show ?thesis unfolding s' by (rule draw_wrap_frame)
qed

lemma draw_child_frame:
  assumes "draw_child E c w h s = Some (Inr s')"
  shows "frame c s s'" "\<forall>cs. kind (objs s c) \<noteq> Buffer cs"
  using assms
  by (auto simp: draw_child_def split: shape.splits
      dest: Line_draw_frame Circle_draw_frame Triangle_draw_frame Rectangle_draw_frame
        DrawableText_draw_frame)

lemma compose_step:
  assumes "compose E g (c # cs) s = Some (Inr s')"
  obtains s1 a where "draw_child E c (width (objs s g)) (height (objs s g)) s = Some (Inr s1)"
    "blend (blend_mode (objs s c)) (words (objs s1 g)) (words (objs s1 c)) = Inr a"
    "compose E g cs (upd g (\<lambda>b. b\<lparr>words := a\<rparr>) s1) = Some (Inr s')"
  using assms by (auto simp: Let_def elim!: then_doE split: sum.splits)

lemma compose_frame:
  assumes "compose E g cs s = Some (Inr s')" "kind (objs s g) = Buffer gs" "g < next_ref s"
  shows "next_ref s \<le> next_ref s' \<and> g \<notin> set cs \<and>
     (\<forall>x<next_ref s.
        width (objs s' x) = width (objs s x) \<and> height (objs s' x) = height (objs s x) \<and>
        kind (objs s' x) = kind (objs s x) \<and> blend_mode (objs s' x) = blend_mode (objs s x) \<and>
        parent (objs s' x) = parent (objs s x) \<and>
        nrows (words (objs s' x)) = nrows (words (objs s x)) \<and>
        ncols (words (objs s' x)) = ncols (words (objs s x)) \<and>
        (x \<notin> set cs \<longrightarrow> x \<noteq> g \<longrightarrow> words (objs s' x) = words (objs s x)) \<and>
        (x \<notin> set cs \<longrightarrow> is_dirty (objs s x) \<longrightarrow> is_dirty (objs s' x)))"
  using assms
proof (induction cs arbitrary: s)
  case Nil
  then show ?case by simp
next
  case (Cons c cs)
  from Cons.prems(1) obtain s1 a where
    d: "draw_child E c (width (objs s g)) (height (objs s g)) s = Some (Inr s1)"
    and b: "blend (blend_mode (objs s c)) (words (objs s1 g)) (words (objs s1 c)) = Inr a"
    and r: "compose E g cs (upd g (\<lambda>b. b\<lparr>words := a\<rparr>) s1) = Some (Inr s')"
    by (rule compose_step)
  let ?s2 = "upd g (\<lambda>b. b\<lparr>words := a\<rparr>) s1"
  have f: "frame c s s1" and nb: "\<forall>cs. kind (objs s c) \<noteq> Buffer cs"
    using draw_child_frame [OF d] by blast+
  have cg: "c \<noteq> g" using nb Cons.prems(2) by auto
  have k1: "kind (objs s1 g) = Buffer gs" using f Cons.prems(2,3) by (simp add: frame_def)
  have k2: "kind (objs ?s2 g) = Buffer gs" using k1 by simp
  have n2: "g < next_ref ?s2" using f Cons.prems(3) by (simp add: frame_def)
  note IH = Cons.IH [OF r k2 n2]
  have sh: "nrows a = nrows (words (objs s1 g))" "ncols a = ncols (words (objs s1 g))"
    using blend_shape [OF b] by simp_all
  have le: "next_ref s \<le> next_ref s1" using f by (simp add: frame_def)
  show ?case
  proof (intro conjI allI impI)
    show "next_ref s \<le> next_ref s'" using IH le by simp
    show "g \<notin> set (c # cs)" using IH cg by simp
  next
    fix x assume x: "x < next_ref s"
    then have x2: "x < next_ref ?s2" using le by simp
    from f x have fx: "width (objs s1 x) = width (objs s x)" "height (objs s1 x) = height (objs s x)"
      "kind (objs s1 x) = kind (objs s x)" "blend_mode (objs s1 x) = blend_mode (objs s x)"
      "parent (objs s1 x) = parent (objs s x)"
      "nrows (words (objs s1 x)) = nrows (words (objs s x))"
      "ncols (words (objs s1 x)) = ncols (words (objs s x))"
      "x \<noteq> c \<Longrightarrow> words (objs s1 x) = words (objs s x)"
      "x \<noteq> c \<Longrightarrow> is_dirty (objs s x) \<Longrightarrow> is_dirty (objs s1 x)"
      by (simp_all add: frame_def)
    from IH x2 have ix: "width (objs s' x) = width (objs ?s2 x)" "height (objs s' x) = height (objs ?s2 x)"
      "kind (objs s' x) = kind (objs ?s2 x)" "blend_mode (objs s' x) = blend_mode (objs ?s2 x)"
      "parent (objs s' x) = parent (objs ?s2 x)"
      "nrows (words (objs s' x)) = nrows (words (objs ?s2 x))"
      "ncols (words (objs s' x)) = ncols (words (objs ?s2 x))"
      "x \<notin> set cs \<Longrightarrow> x \<noteq> g \<Longrightarrow> words (objs s' x) = words (objs ?s2 x)"
      "x \<notin> set cs \<Longrightarrow> is_dirty (objs ?s2 x) \<Longrightarrow> is_dirty (objs s' x)"
      by blast+
    have u: "width (objs ?s2 x) = width (objs s1 x)" "height (objs ?s2 x) = height (objs s1 x)"
      "kind (objs ?s2 x) = kind (objs s1 x)" "blend_mode (objs ?s2 x) = blend_mode (objs s1 x)"
      "parent (objs ?s2 x) = parent (objs s1 x)" "is_dirty (objs ?s2 x) = is_dirty (objs s1 x)"
      "x \<noteq> g \<Longrightarrow> words (objs ?s2 x) = words (objs s1 x)"
      "nrows (words (objs ?s2 x)) = nrows (words (objs s1 x))"
      "ncols (words (objs ?s2 x)) = ncols (words (objs s1 x))"
      using sh by simp_all
    show "width (objs s' x) = width (objs s x)" by (simp only: ix(1) u(1) fx(1))
    show "height (objs s' x) = height (objs s x)" by (simp only: ix(2) u(2) fx(2))
    show "kind (objs s' x) = kind (objs s x)" by (simp only: ix(3) u(3) fx(3))
    show "blend_mode (objs s' x) = blend_mode (objs s x)" by (simp only: ix(4) u(4) fx(4))
    show "parent (objs s' x) = parent (objs s x)" by (simp only: ix(5) u(5) fx(5))
    show "nrows (words (objs s' x)) = nrows (words (objs s x))" by (simp only: ix(6) u(8) fx(6))
    show "ncols (words (objs s' x)) = ncols (words (objs s x))" by (simp only: ix(7) u(9) fx(7))
    show "words (objs s' x) = words (objs s x)" if "x \<notin> set (c # cs)" "x \<noteq> g"
    proof -
      from that have "x \<notin> set cs" "x \<noteq> c" by simp_all
      then show ?thesis using ix(8) u(7) fx(8) that(2) by simp
    qed
    show "is_dirty (objs s' x)" if "x \<notin> set (c # cs)" "is_dirty (objs s x)"
    proof -
      from that have "x \<notin> set cs" "x \<noteq> c" by simp_all
      then show ?thesis using ix(9) u(6) fx(9) that(2) by simp
    qed
  qed
qed

lemma compose_fold:
  assumes "compose E g cs s = Some (Inr s')" "kind (objs s g) = Buffer gs" "g < next_ref s"
    "\<forall>c\<in>set cs. c < next_ref s" "distinct cs"
  shows "blend_all (words (objs s g)) (map (\<lambda>c. (blend_mode (objs s c), words (objs s' c))) cs)
     = Inr (words (objs s' g))"
  using assms
proof (induction cs arbitrary: s)
  case Nil
  then show ?case by simp
next
  case (Cons c cs)
  from Cons.prems(1) obtain s1 a where
    d: "draw_child E c (width (objs s g)) (height (objs s g)) s = Some (Inr s1)"
    and b: "blend (blend_mode (objs s c)) (words (objs s1 g)) (words (objs s1 c)) = Inr a"
    and r: "compose E g cs (upd g (\<lambda>b. b\<lparr>words := a\<rparr>) s1) = Some (Inr s')"
    by (rule compose_step)
  let ?s2 = "upd g (\<lambda>b. b\<lparr>words := a\<rparr>) s1"
  have f: "frame c s s1" and nb: "\<forall>cs. kind (objs s c) \<noteq> Buffer cs"
    using draw_child_frame [OF d] by blast+
  have cg: "c \<noteq> g" using nb Cons.prems(2) by auto
  have le: "next_ref s \<le> next_ref s1" using f by (simp add: frame_def)
  have k2: "kind (objs ?s2 g) = Buffer gs" using f Cons.prems(2,3) by (simp add: frame_def)
  have n2: "g < next_ref ?s2" using le Cons.prems(3) by simp
  have c2: "\<forall>c\<in>set cs. c < next_ref ?s2" using le Cons.prems(4) by auto
  have dc: "distinct cs" "c \<notin> set cs" using Cons.prems(5) by simp_all
  note IH0 = Cons.IH [OF r k2 n2 c2 dc(1)]
  have w2: "words (objs ?s2 g) = a" by simp
  have bm: "\<And>x. x \<in> set cs \<Longrightarrow> blend_mode (objs ?s2 x) = blend_mode (objs s x)"
  proof -
    fix x assume "x \<in> set cs"
    then have "x < next_ref s" using Cons.prems(4) by simp
    then have a: "blend_mode (objs s1 x) = blend_mode (objs s x)" using f by (simp add: frame_def)
    have b: "blend_mode (objs ?s2 x) = blend_mode (objs s1 x)" by simp
    show "blend_mode (objs ?s2 x) = blend_mode (objs s x)" by (simp only: a b)
  qed
  then have m: "map (\<lambda>c. (blend_mode (objs ?s2 c), words (objs s' c))) cs
      = map (\<lambda>c. (blend_mode (objs s c), words (objs s' c))) cs"
    by (intro map_cong) auto
  have wg: "words (objs s1 g) = words (objs s g)"
    using f cg Cons.prems(3) by (simp add: frame_def)
  have cn: "c < next_ref ?s2" using le Cons.prems(4) by simp
  have wc: "words (objs s' c) = words (objs s1 c)"
    using compose_frame [OF r k2 n2] cn dc(2) cg by simp
  have IH: "blend_all a (map (\<lambda>c. (blend_mode (objs s c), words (objs s' c))) cs)
      = Inr (words (objs s' g))"
    using IH0 unfolding m w2 .
  have b': "blend (blend_mode (objs s c)) (words (objs s g)) (words (objs s' c)) = Inr a"
    using b by (simp only: wg wc)
  show ?case by (simp add: IH b')
qed

lemma blend_cells:
  assumes "blend bm a b = Inr a'" "nrows b = nrows a" "ncols b = ncols a" "i < nrows a" "j < ncols a"
  shows "cells a' i j =
     (case bm of ON \<Rightarrow> cells a i j OR cells b i j
               | OFF \<Rightarrow> cells a i j AND NOT (cells b i j)
               | XOR' \<Rightarrow> cells a i j XOR cells b i j)"
  using assms
  by (cases bm) (auto simp: blend_def inplace_def invert_def bcast_def in_shape_def split: if_splits)

lemma GraphicsBuffer_draw_stays_dirty:
  assumes "GraphicsBuffer_draw E g s = Some (Inr s')" "is_dirty (objs s g)" "g < next_ref s"
  shows "is_dirty (objs s' g)"
proof -
  from assms(1,2) obtain cs where k: "kind (objs s g) = Buffer cs"
    and c: "compose E g cs (reset g s) = Some (Inr s')"
    by (auto simp: GraphicsBuffer_draw_def split: shape.splits)
  have k0: "kind (objs (reset g s) g) = Buffer cs" using k by (simp add: reset_def)
  have n0: "g < next_ref (reset g s)" using assms(3) by (simp add: reset_def)
  have d0: "is_dirty (objs (reset g s) g)" using assms(2) by (simp add: reset_def)
  from compose_frame [OF c k0 n0] n0 d0 show ?thesis by blast
qed

lemma shape_ok_dirty [simp]: "shape_ok (b\<lparr>is_dirty := d\<rparr>) = shape_ok b"
  by (simp add: shape_ok_def)

lemma painted_refl: "chain s r ps \<Longrightarrow> shape_ok (objs s r) \<Longrightarrow> painted r ps {} s s"
  by (simp add: painted_def)

lemma painted_trans:
  assumes "painted r ps A s s1" "painted r ps B s1 s2"
  shows "painted r ps (A \<union> B) s s2"
proof -
  have ib: "\<And>x y. in_bounds (objs s1 r) x y = in_bounds (objs s r) x y"
    using assms(1) by (simp add: painted_def in_bounds_def)
  have "frame r s s2" using assms frame_trans by (auto simp: painted_def)
  moreover have "\<forall>x y. in_bounds (objs s r) x y \<longrightarrow>
        pixel (words (objs s2 r)) x y = (if (x, y) \<in> A \<union> B then 1 else pixel (words (objs s r)) x y)"
    using assms ib by (auto simp: painted_def)
  ultimately show ?thesis using assms by (simp add: painted_def)
qed

lemma set_pixel_painted:
  assumes "chain s r ps" "shape_ok (objs s r)"
  shows "\<exists>s'. set_pixel r x y True s = Inr s' \<and> painted r ps {(x, y)} s s'"
proof (cases "in_bounds (objs s r) x y")
  case False
  then have "set_pixel r x y True s = Inr s" by (rule set_pixel_out)
  moreover have "painted r ps {(x, y)} s s"
    using assms False by (auto simp: painted_def)
  ultimately show ?thesis by blast
next
  case True
  let ?s' = "touch (set (r # ps)) (upd r (\<lambda>b. b\<lparr>words := put_bit x y (words (objs s r))\<rparr>) s)"
  have e: "set_pixel r x y True s = Inr ?s'" by (rule set_pixel_in [OF assms(2) True assms(1)])
  have f: "frame r s ?s'" using e by (rule set_pixel_frame)
  have nn: "0 \<le> x" "0 \<le> y" using True by (simp_all add: in_bounds_def)
  have px: "\<And>xa ya. in_bounds (objs s r) xa ya \<Longrightarrow>
        pixel (put_bit x y (words (objs s r))) xa ya =
        (if (xa, ya) \<in> {(x, y)} then 1 else pixel (words (objs s r)) xa ya)"
    using pixel_put_bit [OF nn] by (auto simp: in_bounds_def)
  have "painted r ps {(x, y)} s ?s'"
    unfolding painted_def using f assms px by (simp add: chain_upd shape_ok_def)
  with e show ?thesis by blast
qed

lemma for_each_painted:
  assumes step: "\<And>a s. chain s r ps \<Longrightarrow> shape_ok (objs s r) \<Longrightarrow>
      \<exists>s'. f a s = Inr s' \<and> painted r ps (S a) s s'"
  shows "chain s r ps \<Longrightarrow> shape_ok (objs s r) \<Longrightarrow>
     \<exists>s'. for_each f xs s = Inr s' \<and> painted r ps (\<Union>a\<in>set xs. S a) s s'"
proof (induction xs arbitrary: s)
  case Nil
  then show ?case by (simp add: painted_refl)
next
  case (Cons a xs)
  from step [OF Cons.prems] obtain s1 where s1: "f a s = Inr s1" "painted r ps (S a) s s1" by blast
  then have "chain s1 r ps" "shape_ok (objs s1 r)" by (simp_all add: painted_def)
  from Cons.IH [OF this] obtain s2 where s2: "for_each f xs s1 = Inr s2"
    "painted r ps (\<Union>a\<in>set xs. S a) s1 s2" by blast
  have "painted r ps (S a \<union> (\<Union>a\<in>set xs. S a)) s s2" using s1(2) s2(2) by (rule painted_trans)
  then show ?case using s1(1) s2(1) by simp
qed

lemma set_pixels_painted:
  assumes "chain s r ps" "shape_ok (objs s r)"
  shows "\<exists>s'. set_pixels r pts s = Inr s' \<and> painted r ps (set pts) s s'"
proof -
  have "\<exists>s'. for_each (\<lambda>p. set_pixel r (fst p) (snd p) True) pts s = Inr s' \<and>
      painted r ps (\<Union>p\<in>set pts. {(fst p, snd p)}) s s'"
    using assms by (intro for_each_painted set_pixel_painted)
  then show ?thesis by (simp add: set_pixels_def)
qed

lemma reset_ready:
  assumes "chain s r ps" "shape_ok (objs s r)"
  shows "chain (reset r s) r ps" "shape_ok (objs (reset r s) r)"
    "\<And>x y. in_bounds (objs (reset r s) r) x y = in_bounds (objs s r) x y"
    "\<And>x y. in_bounds (objs s r) x y \<Longrightarrow> pixel (words (objs (reset r s) r)) x y = 0"
proof -
  show "chain (reset r s) r ps" using assms(1) by (simp add: reset_def chain_upd)
  show "shape_ok (objs (reset r s) r)" using assms(2) by (simp add: reset_def shape_ok_def map_cells_def)
  show "\<And>x y. in_bounds (objs (reset r s) r) x y = in_bounds (objs s r) x y"
    by (simp add: reset_def in_bounds_def)
  show "\<And>x y. in_bounds (objs s r) x y \<Longrightarrow> pixel (words (objs (reset r s) r)) x y = 0"
    using in_shape_px [OF assms(2)] by (simp add: reset_def pixel_def map_cells_def)
qed

lemma painted_draw:
  assumes "chain s r ps" "shape_ok (objs s r)" "painted r ps A (reset r s) s1"
  shows "frame r s (clear_dirty r s1)" "next_ref (clear_dirty r s1) = next_ref s"
    "\<not> is_dirty (objs (clear_dirty r s1) r)" "shape_ok (objs (clear_dirty r s1) r)"
    "chain (clear_dirty r s1) r ps"
    "\<forall>x y. in_bounds (objs s r) x y \<longrightarrow>
       pixel (words (objs (clear_dirty r s1) r)) x y = (if (x, y) \<in> A then 1 else 0)"
    "width (objs (clear_dirty r s1) r) = width (objs s r)"
    "height (objs (clear_dirty r s1) r) = height (objs s r)"
proof -
  show "width (objs (clear_dirty r s1) r) = width (objs s r)"
    using assms(3) by (simp add: painted_def clear_dirty_def reset_def)
  show "height (objs (clear_dirty r s1) r) = height (objs s r)"
    using assms(3) by (simp add: painted_def clear_dirty_def reset_def)
  note rr = reset_ready [OF assms(1,2)]
  show "frame r s (clear_dirty r s1)" using assms(3) by (intro draw_wrap_frame) (simp add: painted_def)
  show "next_ref (clear_dirty r s1) = next_ref s" using assms(3) by (simp add: painted_def clear_dirty_def reset_def)
  show "\<not> is_dirty (objs (clear_dirty r s1) r)" by (simp add: clear_dirty_def)
  show "shape_ok (objs (clear_dirty r s1) r)" using assms(3) by (simp add: painted_def clear_dirty_def)
  show "chain (clear_dirty r s1) r ps" using assms(3) by (simp add: painted_def clear_dirty_def chain_upd)
  show "\<forall>x y. in_bounds (objs s r) x y \<longrightarrow>
       pixel (words (objs (clear_dirty r s1) r)) x y = (if (x, y) \<in> A then 1 else 0)"
    using assms(3) rr(3,4) by (simp add: painted_def clear_dirty_def)
qed

lemma mem_grid:
  "((px, py) \<in> set (concat (map (\<lambda>yy. map (\<lambda>xx. (xx, yy)) xs) ys))) = (px \<in> set xs \<and> py \<in> set ys)"
  by (induction ys) auto

lemma Rectangle_fill:
  assumes "kind (objs s r) = Rectangle x y w h True" "is_dirty (objs s r)"
    "chain s r ps" "shape_ok (objs s r)"
  shows "\<exists>s'. Rectangle_draw r wd ht s = Some (Inr s') \<and> frame r s s' \<and> next_ref s' = next_ref s \<and>
     \<not> is_dirty (objs s' r) \<and> shape_ok (objs s' r) \<and> chain s' r ps \<and>
     width (objs s' r) = width (objs s r) \<and> height (objs s' r) = height (objs s r) \<and>
     (\<forall>px py. in_bounds (objs s r) px py \<longrightarrow>
        pixel (words (objs s' r)) px py =
        (if x \<le> px \<and> px < x + w \<and> y \<le> py \<and> py < y + h then 1 else 0))"
proof -
  let ?pts = "concat (map (\<lambda>yy. map (\<lambda>xx. (xx, yy)) [x..x + w - 1]) [y..y + h - 1])"
  note rr = reset_ready [OF assms(3,4)]
  from set_pixels_painted [OF rr(1,2), of ?pts] obtain s1 where
    s1: "set_pixels r ?pts (reset r s) = Inr s1" "painted r ps (set ?pts) (reset r s) s1" by blast
  have d: "Rectangle_draw r wd ht s = Some (Inr (clear_dirty r s1))"
    using assms(1,2) s1(1) by (simp add: Rectangle_draw_def Let_def then_do_def)
  have m: "\<And>px py. ((px, py) \<in> set ?pts) = (x \<le> px \<and> px < x + w \<and> y \<le> py \<and> py < y + h)"
  proof -
    fix px py
    have "((px, py) \<in> set ?pts) = (py \<in> {y..y + h - 1} \<and> px \<in> {x..x + w - 1})"
      unfolding mem_grid by auto
    then show "((px, py) \<in> set ?pts) = (x \<le> px \<and> px < x + w \<and> y \<le> py \<and> py < y + h)" by auto
  qed
  note pd = painted_draw [OF assms(3,4) s1(2)]
  have px: "\<forall>px py. in_bounds (objs s r) px py \<longrightarrow>
        pixel (words (objs (clear_dirty r s1) r)) px py =
        (if x \<le> px \<and> px < x + w \<and> y \<le> py \<and> py < y + h then 1 else 0)"
    using pd(6) unfolding m .
  show ?thesis using d pd(1-5,7,8) px by blast
qed

lemma take_two: "2 \<le> length xs \<Longrightarrow> take 2 xs = [xs ! 0, xs ! 1]"
  by (cases xs; cases "tl xs") auto




lemma fill_row_raises:
  "row_span E vs y = Inl e \<Longrightarrow> fill_row E r vs y s = Inl e"
  by (auto simp: row_span_def fill_row_def and_then_def take_two split: sum.splits if_splits)





lemma fresh_buffer_obj: "objs fresh_buffer 0 = GraphicsBuffer_init 16 1" "next_ref fresh_buffer = 1"
  by (simp_all add: fresh_buffer_def new_def empty_store_def)

lemma nested_buffers_obj:
  "kind (objs nested_buffers 0) = Buffer [1]" "kind (objs nested_buffers (Suc 0)) = Buffer []"
  "is_dirty (objs nested_buffers 0)" "parent (objs nested_buffers (Suc 0)) = Some 0"
  by (simp_all add: nested_buffers_def add_def Let_def new_def fresh_buffer_def empty_store_def
      GraphicsBuffer_init_def Bitmap_init_def)

lemma blend_total:
  "nrows b = nrows a \<Longrightarrow> ncols b = ncols a \<Longrightarrow> \<exists>a'. blend bm a b = Inr a'"
  by (cases bm) (simp_all add: blend_def inplace_def invert_def)

lemma pixel_blend:
  assumes "blend bm a b = Inr a'" "nrows b = nrows a" "ncols b = ncols a"
    "in_shape a (nat y) (nat (x div 16))"
  shows "pixel a' x y = blend_px bm (pixel a x y) (pixel b x y)"
proof -
  have i: "nat y < nrows a" "nat (x div 16) < ncols a" using assms(4) by (simp_all add: in_shape_def)
  have k: "15 - nat (x mod 16) < 16" by simp
  note c = blend_cells [OF assms(1,2,3) i]
  show ?thesis
    unfolding pixel_def c using k
    by (cases bm) (simp_all add: blend_px_def bit_or_iff bit_and_iff bit_not_iff bit_xor_iff)
qed

lemma compose_rect_step:
  assumes r: "root g s" and c: "rect_child g s c"
  shows "\<exists>s2. compose E g (c # cs) s = compose E g cs s2 \<and> next_ref s2 = next_ref s \<and>
     root g s2 \<and> kind (objs s2 g) = kind (objs s g) \<and>
     width (objs s2 g) = width (objs s g) \<and> height (objs s2 g) = height (objs s g) \<and>
     \<not> is_dirty (objs s2 c) \<and> (is_dirty (objs s g) \<longrightarrow> is_dirty (objs s2 g)) \<and>
     (\<forall>c'. c' \<noteq> c \<longrightarrow> rect_child g s c' \<longrightarrow>
        rect_child g s2 c' \<and> kind (objs s2 c') = kind (objs s c') \<and>
        blend_mode (objs s2 c') = blend_mode (objs s c')) \<and>
     (\<forall>px py. in_bounds (objs s g) px py \<longrightarrow>
        pixel (words (objs s2 g)) px py =
        blend_px (blend_mode (objs s c)) (pixel (words (objs s g)) px py)
          (rect_px (kind (objs s c)) px py))"
proof -
  from c obtain x y w h where k: "kind (objs s c) = Rectangle x y w h True"
    by (auto simp: rect_child_def)
  have cd: "is_dirty (objs s c)" and cp: "parent (objs s c) = Some g" and ck: "shape_ok (objs s c)"
    and cn: "c < next_ref s" and cw: "width (objs s c) = width (objs s g)"
    and chh: "height (objs s c) = height (objs s g)"
    using c by (simp_all add: rect_child_def)
  have gp: "parent (objs s g) = None" and gk: "shape_ok (objs s g)" and gn: "g < next_ref s"
    using r by (simp_all add: root_def)
  have cg: "c \<noteq> g" using cp gp by auto
  have ch: "chain s c [g]" using cp gp by simp
  from Rectangle_fill [OF k cd ch ck, of "width (objs s g)" "height (objs s g)"]
  obtain s1 where d: "Rectangle_draw c (width (objs s g)) (height (objs s g)) s = Some (Inr s1)"
    and f: "frame c s s1" and n1: "next_ref s1 = next_ref s" and cl: "\<not> is_dirty (objs s1 c)"
    and k1: "shape_ok (objs s1 c)"
    and wh1: "width (objs s1 c) = width (objs s c)" "height (objs s1 c) = height (objs s c)"
    and px1: "\<forall>px py. in_bounds (objs s c) px py \<longrightarrow>
        pixel (words (objs s1 c)) px py =
        (if x \<le> px \<and> px < x + w \<and> y \<le> py \<and> py < y + h then 1 else 0)"
    by blast
  have dc: "draw_child E c (width (objs s g)) (height (objs s g)) s = Some (Inr s1)"
    by (simp add: draw_child_def k d)
  have g1: "words (objs s1 g) = words (objs s g)" "width (objs s1 g) = width (objs s g)"
    "height (objs s1 g) = height (objs s g)" "kind (objs s1 g) = kind (objs s g)"
    "parent (objs s1 g) = parent (objs s g)" "is_dirty (objs s g) \<Longrightarrow> is_dirty (objs s1 g)"
    using f gn cg by (simp_all add: frame_def)
  have sh: "nrows (words (objs s1 c)) = nrows (words (objs s g))"
    "ncols (words (objs s1 c)) = ncols (words (objs s g))"
    using k1 gk wh1 cw chh by (simp_all add: shape_ok_def)
  from blend_total [OF sh] obtain a where
    b: "blend (blend_mode (objs s c)) (words (objs s g)) (words (objs s1 c)) = Inr a" by blast
  have sa: "nrows a = nrows (words (objs s g))" "ncols a = ncols (words (objs s g))"
    using blend_shape [OF b] by simp_all
  let ?s2 = "upd g (\<lambda>b. b\<lparr>words := a\<rparr>) s1"
  have e: "compose E g (c # cs) s = compose E g cs ?s2"
    by (simp add: Let_def then_do_def dc g1(1) b)
  have ibc: "\<And>px py. in_bounds (objs s c) px py = in_bounds (objs s g) px py"
    using cw chh by (simp add: in_bounds_def)
  have pa: "\<forall>px py. in_bounds (objs s g) px py \<longrightarrow>
        pixel (words (objs ?s2 g)) px py =
        blend_px (blend_mode (objs s c)) (pixel (words (objs s g)) px py)
          (rect_px (kind (objs s c)) px py)"
  proof (intro allI impI)
    fix px py assume ib: "in_bounds (objs s g) px py"
    have "pixel a px py = blend_px (blend_mode (objs s c)) (pixel (words (objs s g)) px py)
        (pixel (words (objs s1 c)) px py)"
      using b sh in_shape_px [OF gk ib] by (rule pixel_blend)
    moreover have "pixel (words (objs s1 c)) px py = rect_px (kind (objs s c)) px py"
      using px1 ib ibc by (simp add: k rect_px_def)
    ultimately show "pixel (words (objs ?s2 g)) px py =
        blend_px (blend_mode (objs s c)) (pixel (words (objs s g)) px py)
          (rect_px (kind (objs s c)) px py)"
      by simp
  qed
  have r2: "root g ?s2"
    using r g1 sa n1 by (simp add: root_def shape_ok_def)
  have oth: "\<forall>c'. c' \<noteq> c \<longrightarrow> rect_child g s c' \<longrightarrow>
        rect_child g ?s2 c' \<and> kind (objs ?s2 c') = kind (objs s c') \<and>
        blend_mode (objs ?s2 c') = blend_mode (objs s c')"
  proof (intro allI impI)
    fix c' assume ne: "c' \<noteq> c" and rc: "rect_child g s c'"
    have cn': "c' < next_ref s" and cp': "parent (objs s c') = Some g"
      using rc by (simp_all add: rect_child_def)
    have cg': "c' \<noteq> g" using cp' gp by auto
    have o: "objs ?s2 c' = objs s1 c'" using cg' by simp
    have fr: "width (objs s1 c') = width (objs s c')" "height (objs s1 c') = height (objs s c')"
      "kind (objs s1 c') = kind (objs s c')" "blend_mode (objs s1 c') = blend_mode (objs s c')"
      "parent (objs s1 c') = parent (objs s c')" "words (objs s1 c') = words (objs s c')"
      "is_dirty (objs s c') \<Longrightarrow> is_dirty (objs s1 c')"
      using f cn' ne by (simp_all add: frame_def)
    have ck': "shape_ok (objs s c')" and cd': "is_dirty (objs s c')"
      and cw': "width (objs s c') = width (objs s g)" and chh': "height (objs s c') = height (objs s g)"
      and kk': "\<exists>x y w h. kind (objs s c') = Rectangle x y w h True"
      using rc by (simp_all add: rect_child_def)
    have k1': "shape_ok (objs s1 c')" using ck' unfolding shape_ok_def by (simp add: fr)
    have "rect_child g ?s2 c'"
      unfolding rect_child_def o
    proof (intro conjI)
      show "\<exists>x y w h. kind (objs s1 c') = Rectangle x y w h True" using kk' by (simp add: fr)
      show "is_dirty (objs s1 c')" using cd' by (rule fr(7))
      show "parent (objs s1 c') = Some g" using cp' by (simp add: fr)
      show "shape_ok (objs s1 c')" by (rule k1')
      show "c' < next_ref ?s2" using cn' n1 by simp
      show "width (objs s1 c') = width (objs ?s2 g)" using cw' by (simp add: fr g1)
      show "height (objs s1 c') = height (objs ?s2 g)" using chh' by (simp add: fr g1)
    qed
    moreover have "kind (objs ?s2 c') = kind (objs s c')" unfolding o by (rule fr(3))
    moreover have "blend_mode (objs ?s2 c') = blend_mode (objs s c')" unfolding o by (rule fr(4))
    ultimately show "rect_child g ?s2 c' \<and> kind (objs ?s2 c') = kind (objs s c') \<and>
        blend_mode (objs ?s2 c') = blend_mode (objs s c')"
      by blast
  qed
  have cl2: "\<not> is_dirty (objs ?s2 c)" using cl cg by simp
  have d2: "is_dirty (objs s g) \<longrightarrow> is_dirty (objs ?s2 g)" using g1(6) by simp
  have m2: "next_ref ?s2 = next_ref s" "kind (objs ?s2 g) = kind (objs s g)"
    "width (objs ?s2 g) = width (objs s g)" "height (objs ?s2 g) = height (objs s g)"
    using n1 g1 by simp_all
  from e m2 r2 cl2 d2 oth pa show ?thesis by blast
qed

lemma root_reset: "root g s \<Longrightarrow> root g (reset g s)"
  by (simp add: root_def reset_def shape_ok_def map_cells_def)

lemma rect_child_reset: "root g s \<Longrightarrow> rect_child g s c \<Longrightarrow> rect_child g (reset g s) c"
proof -
  assume r: "root g s" and c: "rect_child g s c"
  then have "c \<noteq> g" by (auto simp: root_def rect_child_def)
  then have o: "objs (reset g s) c = objs s c" by (simp add: reset_def)
  show ?thesis using c unfolding rect_child_def o by (simp add: reset_def)
qed

lemma compose_one_rect:
  assumes "root g s" "rect_child g s c"
  shows "\<exists>s'. compose E g [c] s = Some (Inr s') \<and> \<not> is_dirty (objs s' c) \<and>
     (is_dirty (objs s g) \<longrightarrow> is_dirty (objs s' g))"
proof -
  from compose_rect_step [OF assms, of E "[]"] obtain s2 where
    "compose E g [c] s = compose E g [] s2" "\<not> is_dirty (objs s2 c)"
    "is_dirty (objs s g) \<longrightarrow> is_dirty (objs s2 g)"
    by blast
  then show ?thesis by simp
qed

lemma compose_two_rects:
  assumes "root g s" "rect_child g s p" "rect_child g s q" "p \<noteq> q"
  shows "\<exists>s'. compose E g [p, q] s = Some (Inr s') \<and> shape_ok (objs s' g) \<and>
     width (objs s' g) = width (objs s g) \<and> height (objs s' g) = height (objs s g) \<and>
     (\<forall>px py. in_bounds (objs s g) px py \<longrightarrow>
        pixel (words (objs s' g)) px py =
        blend_px (blend_mode (objs s q))
          (blend_px (blend_mode (objs s p)) (pixel (words (objs s g)) px py)
             (rect_px (kind (objs s p)) px py))
          (rect_px (kind (objs s q)) px py))"
proof -
  from compose_rect_step [OF assms(1,2), of E "[q]"] obtain s2 where
    e1: "compose E g [p, q] s = compose E g [q] s2" and r2: "root g s2"
    and wh2: "width (objs s2 g) = width (objs s g)" "height (objs s2 g) = height (objs s g)"
    and o2: "\<forall>c'. c' \<noteq> p \<longrightarrow> rect_child g s c' \<longrightarrow>
        rect_child g s2 c' \<and> kind (objs s2 c') = kind (objs s c') \<and>
        blend_mode (objs s2 c') = blend_mode (objs s c')"
    and p2: "\<forall>px py. in_bounds (objs s g) px py \<longrightarrow>
        pixel (words (objs s2 g)) px py =
        blend_px (blend_mode (objs s p)) (pixel (words (objs s g)) px py)
          (rect_px (kind (objs s p)) px py)"
    by blast
  have q2: "rect_child g s2 q" "kind (objs s2 q) = kind (objs s q)"
    "blend_mode (objs s2 q) = blend_mode (objs s q)"
    using o2 assms(3,4) by auto
  from compose_rect_step [OF r2 q2(1), of E "[]"] obtain s3 where
    e2: "compose E g [q] s2 = compose E g [] s3" and r3: "root g s3"
    and wh3: "width (objs s3 g) = width (objs s2 g)" "height (objs s3 g) = height (objs s2 g)"
    and p3: "\<forall>px py. in_bounds (objs s2 g) px py \<longrightarrow>
        pixel (words (objs s3 g)) px py =
        blend_px (blend_mode (objs s2 q)) (pixel (words (objs s2 g)) px py)
          (rect_px (kind (objs s2 q)) px py)"
    by blast
  have ib: "\<And>px py. in_bounds (objs s2 g) px py = in_bounds (objs s g) px py"
    using wh2 by (simp add: in_bounds_def)
  have "compose E g [p, q] s = Some (Inr s3)" using e1 e2 by simp
  moreover have "shape_ok (objs s3 g)" using r3 by (simp add: root_def)
  moreover have "width (objs s3 g) = width (objs s g)" "height (objs s3 g) = height (objs s g)"
    using wh2 wh3 by simp_all
  moreover have "\<forall>px py. in_bounds (objs s g) px py \<longrightarrow>
        pixel (words (objs s3 g)) px py =
        blend_px (blend_mode (objs s q))
          (blend_px (blend_mode (objs s p)) (pixel (words (objs s g)) px py)
             (rect_px (kind (objs s p)) px py))
          (rect_px (kind (objs s q)) px py)"
    using p3 p2 ib q2(2,3) by simp
  ultimately show ?thesis by blast
qed

lemma draw_two_rects:
  assumes "root g s" "kind (objs s g) = Buffer [p, q]" "is_dirty (objs s g)"
    "rect_child g s p" "rect_child g s q" "p \<noteq> q"
  shows "\<exists>s'. GraphicsBuffer_draw E g s = Some (Inr s') \<and>
     (\<forall>px py. in_bounds (objs s g) px py \<longrightarrow>
        pixel (words (objs s' g)) px py =
        blend_px (blend_mode (objs s q))
          (blend_px (blend_mode (objs s p)) 0 (rect_px (kind (objs s p)) px py))
          (rect_px (kind (objs s q)) px py)) \<and>
     (\<forall>px py. in_bounds (objs s g) px py \<longrightarrow>
        get_pixel g px py s' =
        Inr (blend_px (blend_mode (objs s q))
          (blend_px (blend_mode (objs s p)) 0 (rect_px (kind (objs s p)) px py))
          (rect_px (kind (objs s q)) px py)))"
proof -
  have gk: "shape_ok (objs s g)" using assms(1) by (simp add: root_def)
  have pg: "p \<noteq> g" "q \<noteq> g" using assms(1,4,5) by (auto simp: root_def rect_child_def)
  have o: "objs (reset g s) p = objs s p" "objs (reset g s) q = objs s q"
    using pg by (simp_all add: reset_def)
  have z: "\<And>px py. in_bounds (objs s g) px py \<Longrightarrow> pixel (words (objs (reset g s) g)) px py = 0"
    using in_shape_px [OF gk] by (simp add: reset_def pixel_def map_cells_def)
  have ib0: "\<And>px py. in_bounds (objs (reset g s) g) px py = in_bounds (objs s g) px py"
    by (simp add: reset_def in_bounds_def)
  from compose_two_rects [OF root_reset [OF assms(1)] rect_child_reset [OF assms(1,4)]
      rect_child_reset [OF assms(1,5)] assms(6), of E]
  obtain s' where c: "compose E g [p, q] (reset g s) = Some (Inr s')" and k: "shape_ok (objs s' g)"
    and wh: "width (objs s' g) = width (objs (reset g s) g)" "height (objs s' g) = height (objs (reset g s) g)"
    and px: "\<forall>px py. in_bounds (objs (reset g s) g) px py \<longrightarrow>
        pixel (words (objs s' g)) px py =
        blend_px (blend_mode (objs (reset g s) q))
          (blend_px (blend_mode (objs (reset g s) p)) (pixel (words (objs (reset g s) g)) px py)
             (rect_px (kind (objs (reset g s) p)) px py))
          (rect_px (kind (objs (reset g s) q)) px py)"
    by blast
  have d: "GraphicsBuffer_draw E g s = Some (Inr s')"
    using assms(2,3) c by (simp add: GraphicsBuffer_draw_def)
  have ib: "\<And>px py. in_bounds (objs s' g) px py = in_bounds (objs s g) px py"
    using wh by (simp add: in_bounds_def reset_def)
  have pp: "\<forall>px py. in_bounds (objs s g) px py \<longrightarrow>
        pixel (words (objs s' g)) px py =
        blend_px (blend_mode (objs s q))
          (blend_px (blend_mode (objs s p)) 0 (rect_px (kind (objs s p)) px py))
          (rect_px (kind (objs s q)) px py)"
  proof (intro allI impI)
    fix px py assume b: "in_bounds (objs s g) px py"
    show "pixel (words (objs s' g)) px py =
        blend_px (blend_mode (objs s q))
          (blend_px (blend_mode (objs s p)) 0 (rect_px (kind (objs s p)) px py))
          (rect_px (kind (objs s q)) px py)"
      using px b ib0 z [OF b] by (simp add: o)
  qed
  have "\<forall>px py. in_bounds (objs s g) px py \<longrightarrow>
        get_pixel g px py s' =
        Inr (blend_px (blend_mode (objs s q))
          (blend_px (blend_mode (objs s p)) 0 (rect_px (kind (objs s p)) px py))
          (rect_px (kind (objs s q)) px py))"
  proof (intro allI impI)
    fix px py assume b: "in_bounds (objs s g) px py"
    have "get_pixel g px py s' = Inr (pixel (words (objs s' g)) px py)"
      using k b ib by (simp add: get_pixel_in)
    moreover have "pixel (words (objs s' g)) px py =
        blend_px (blend_mode (objs s q))
          (blend_px (blend_mode (objs s p)) 0 (rect_px (kind (objs s p)) px py))
          (rect_px (kind (objs s q)) px py)"
      using pp b by simp
    ultimately show "get_pixel g px py s' =
        Inr (blend_px (blend_mode (objs s q))
          (blend_px (blend_mode (objs s p)) 0 (rect_px (kind (objs s p)) px py))
          (rect_px (kind (objs s q)) px py))"
      by simp
  qed
  with d pp show ?thesis by blast
qed

lemma two_rects_objs:
  "objs two_rects 0 = GraphicsBuffer_init 16 1"
  "objs two_rects (Suc 0) = Rectangle_init 0 0 2 1 True ON 16 1"
  "objs two_rects 2 = Rectangle_init 1 0 2 1 True OFF 16 1"
  "next_ref two_rects = 3"
  by (simp_all add: two_rects_def fresh_buffer_def new_def empty_store_def)

lemma scene_objs:
  "objs scene_ab 0 = (GraphicsBuffer_init 16 1)\<lparr>kind := Buffer [1, 2]\<rparr>"
  "objs scene_ba 0 = (GraphicsBuffer_init 16 1)\<lparr>kind := Buffer [2, 1]\<rparr>"
  "objs rect_scene 0 = (GraphicsBuffer_init 16 1)\<lparr>kind := Buffer [1]\<rparr>"
  "objs scene_ab (Suc 0) = (Rectangle_init 0 0 2 1 True ON 16 1)\<lparr>parent := Some 0\<rparr>"
  "objs scene_ba (Suc 0) = (Rectangle_init 0 0 2 1 True ON 16 1)\<lparr>parent := Some 0\<rparr>"
  "objs rect_scene (Suc 0) = (Rectangle_init 0 0 2 1 True ON 16 1)\<lparr>parent := Some 0\<rparr>"
  "objs scene_ab 2 = (Rectangle_init 1 0 2 1 True OFF 16 1)\<lparr>parent := Some 0\<rparr>"
  "objs scene_ba 2 = (Rectangle_init 1 0 2 1 True OFF 16 1)\<lparr>parent := Some 0\<rparr>"
  "next_ref scene_ab = 3" "next_ref scene_ba = 3" "next_ref rect_scene = 3"
  by (simp_all add: scene_ab_def scene_ba_def rect_scene_def added_def add_def Let_def two_rects_objs
      GraphicsBuffer_init_def Rectangle_init_def Bitmap_init_def)

lemma scene_facts:
  "root 0 scene_ab" "root 0 scene_ba" "root 0 rect_scene"
  "rect_child 0 scene_ab (Suc 0)" "rect_child 0 scene_ab 2"
  "rect_child 0 scene_ba (Suc 0)" "rect_child 0 scene_ba 2"
  "rect_child 0 rect_scene (Suc 0)"
  by (simp_all add: root_def rect_child_def scene_objs GraphicsBuffer_init_def Rectangle_init_def
      Bitmap_init_def shape_ok_def zeros_def)

lemma set_attr_chain:
  "chain s r ps \<Longrightarrow>
   set_attr r f s = Inr (touch (set (r # ps)) (upd r (\<lambda>b. b\<lparr>kind := f (kind b)\<rparr>) s))"
  by (simp add: set_attr_def mark_dirty_chain chain_upd)


section \<open>The surface: reading back what was written\<close>

text \<open>
  What holds of the surface. On a surface that satisfies the data model's invariant and
  whose container chain ends, every sequence of \<open>set_pixel\<close> and \<open>set_word\<close> calls
  that never asks to clear a pixel inside the bounds returns without error, and
  \<open>get_pixel\<close> at in-bounds coordinates then returns the value written last to that
  pixel (\<open>last_written\<close>: a \<open>set_pixel\<close> writes one pixel, a \<open>set_word\<close> the sixteen
  pixels of one word; a pixel never written keeps the value it had). Outside the bounds
  \<open>get_pixel\<close> returns 0, and \<open>set_pixel\<close> and \<open>set_word\<close> leave the store as it is.
\<close>

lemma round_trip_without_clearing:
  assumes "chain s r ps" "shape_ok (objs s r)" "\<forall>w\<in>set ws. \<not> clears_inside (objs s r) w"
  shows "(\<exists>s'. for_each (apply_op r) ws s = Inr s' \<and>
           (\<forall>x y d. in_bounds (objs s r) x y \<longrightarrow> get_pixel r x y s = Inr d \<longrightarrow>
                get_pixel r x y s' = Inr (last_written (rev ws) x y d)) \<and>
           (\<forall>x y. \<not> in_bounds (objs s r) x y \<longrightarrow> get_pixel r x y s' = Inr 0)) \<and>
         (\<forall>x y v. \<not> in_bounds (objs s r) x y \<longrightarrow> set_pixel r x y v s = Inr s) \<and>
         (\<forall>v h val. \<not> (0 \<le> v \<and> v < int (height (objs s r)) \<and> 0 \<le> h \<and> h < int (width (objs s r) div 16))
              \<longrightarrow> set_word r v h val s = Inr s)"
proof -
  from run_ops [OF assms(1,2) assms(3)] obtain s' where s': "for_each (apply_op r) ws s = Inr s'"
    "shape_ok (objs s' r)"
    "width (objs s' r) = width (objs s r)" "height (objs s' r) = height (objs s r)"
    "\<forall>x y. in_bounds (objs s r) x y \<longrightarrow>
        pixel (words (objs s' r)) x y = last_written (rev ws) x y (pixel (words (objs s r)) x y)"
    by blast
  have ib: "\<And>x y. in_bounds (objs s' r) x y = in_bounds (objs s r) x y"
    using s'(3,4) by (simp add: in_bounds_def)
  have a: "\<forall>x y d. in_bounds (objs s r) x y \<longrightarrow> get_pixel r x y s = Inr d \<longrightarrow>
                get_pixel r x y s' = Inr (last_written (rev ws) x y d)"
    using s'(2,5) assms(2) ib by (simp add: get_pixel_in)
  have b: "\<forall>x y. \<not> in_bounds (objs s r) x y \<longrightarrow> get_pixel r x y s' = Inr 0"
    using ib by (simp add: get_pixel_out)
  show ?thesis
    using s'(1) a b set_pixel_out set_word_out by blast
qed

text \<open>
  Claim C6. The claim promises that \<open>get_pixel\<close> returns the last value written by any
  sequence of \<open>set_pixel\<close> and \<open>set_word\<close> calls. Writing \<open>True\<close> and then
  \<open>False\<close> to pixel \<open>(0, 0)\<close> of \<open>Bitmap(16, 1)\<close> does not return: the second
  \<open>set_pixel\<close> raises OverflowError, so the pixel is never cleared.
\<close>

theorem clearing_a_pixel_raises:
  "for_each (apply_op 0) [SetPixel 0 0 True, SetPixel 0 0 False] one_bitmap = Inl OverflowError"
proof -
  have c: "chain one_bitmap 0 []" by (simp add: one_bitmap_obj Bitmap_init_def)
  have k: "shape_ok (objs one_bitmap 0)"
    by (simp add: one_bitmap_obj Bitmap_init_def shape_ok_def zeros_def)
  have b: "in_bounds (objs one_bitmap 0) 0 0"
    by (simp add: one_bitmap_obj Bitmap_init_def in_bounds_def)
  define s1 where "s1 = touch (set [0])
     (upd 0 (\<lambda>b. b\<lparr>words := put_bit 0 0 (words (objs one_bitmap 0))\<rparr>) one_bitmap)"
  have 1: "set_pixel 0 0 0 True one_bitmap = Inr s1"
    unfolding s1_def by (rule set_pixel_in [OF k b c])
  have k1: "shape_ok (objs s1 0)"
    by (simp add: s1_def one_bitmap_obj Bitmap_init_def shape_ok_def zeros_def put_bit_def)
  have b1: "in_bounds (objs s1 0) 0 0"
    by (simp add: s1_def one_bitmap_obj Bitmap_init_def in_bounds_def)
  have 2: "set_pixel 0 0 0 False s1 = Inl OverflowError"
    by (rule set_pixel_clear [OF k1 b1])
  show ?thesis by (simp add: 1 2)
qed

section \<open>The instruction set of the driver\<close>

text \<open>
  Claim C9, as the code has it. \<open>set_instruction_set(extended, graphics)\<close> raises
  exactly when \<open>graphics\<close> is true and \<open>extended\<close> is false; the error is ValueError,
  and the driver it leaves has the \<open>graphics\<close> flag it had before the call: the failed
  call does not set the flag, and a flag that an earlier call has set stays set.
\<close>

theorem set_instruction_set_error:
  "(case set_instruction_set ext gr d of
      Inl (e, d') \<Rightarrow> gr \<and> \<not> ext \<and> e = ValueError \<and> graphics d' = graphics d
    | Inr d' \<Rightarrow> \<not> (gr \<and> \<not> ext))"
  by (simp add: set_instruction_set_def Let_def send_cmd_def send_def)

theorem set_instruction_set_error_witness:
  "(\<exists>d'. set_instruction_set False True (ST7920_init 128 64) = Inl (ValueError, d') \<and> \<not> graphics d') \<and>
   (\<exists>d'. set_instruction_set True True (ST7920_init 128 64) = Inr d' \<and> graphics d') \<and>
   (\<exists>d'. set_instruction_set False True graphics_driver = Inl (ValueError, d') \<and> graphics d')"
  using set_instruction_set_error [of False True "ST7920_init 128 64"]
    set_instruction_set_error [of True True "ST7920_init 128 64"]
    set_instruction_set_error [of False True graphics_driver]
  by (auto simp: set_instruction_set_def Let_def send_cmd_def send_def ST7920_init_def initialize_def
      clear_def graphics_driver_def split: sum.splits)

text \<open>
  The claim as stated, that the flag is false after every call that raises, fails on the
  driver of main.py: after \<open>set_instruction_set(True, True)\<close> the call
  \<open>set_instruction_set(False, True)\<close> raises and leaves the flag true.
\<close>

theorem graphics_flag_stays_set:
  "isl (set_instruction_set False True graphics_driver) \<and>
   fst (projl (set_instruction_set False True graphics_driver)) = ValueError \<and>
   graphics (snd (projl (set_instruction_set False True graphics_driver))) \<and>
   \<not> extended (snd (projl (set_instruction_set False True graphics_driver)))"
  by (simp add: set_instruction_set_def Let_def send_cmd_def send_def ST7920_init_def initialize_def
      clear_def graphics_driver_def)

section \<open>Adding a child\<close>

text \<open>
  Claim C10. \<open>add\<close> on a container appends the drawable to the children, makes the
  container its parent, and leaves the container's dirty flag and words as they were.
\<close>

theorem add_appends_child:
  assumes "kind (objs s g) = Buffer cs"
  shows "\<exists>s'. add g drawable s = Inr s' \<and> kind (objs s' g) = Buffer (cs @ [drawable]) \<and>
     parent (objs s' drawable) = Some g \<and>
     is_dirty (objs s' g) = is_dirty (objs s g) \<and> words (objs s' g) = words (objs s g)"
  using assms by (auto simp: add_def Let_def)


theorem add_appends_child_witness:
  "kind (objs one_buffer 0) = Buffer [] \<and> \<not> is_dirty (objs one_buffer 0) \<and>
   (\<exists>s'. add 0 1 one_buffer = Inr s' \<and> kind (objs s' 0) = Buffer [1] \<and>
      parent (objs s' 1) = Some 0 \<and> \<not> is_dirty (objs s' 0) \<and> words (objs s' 0) = words (objs one_buffer 0))"
proof -
  have k: "kind (objs one_buffer 0) = Buffer []"
    by (simp add: one_buffer_def clear_dirty_def new_def empty_store_def GraphicsBuffer_init_def Bitmap_init_def)
  have d: "\<not> is_dirty (objs one_buffer 0)"
    by (simp add: one_buffer_def clear_dirty_def new_def empty_store_def GraphicsBuffer_init_def Bitmap_init_def)
  show ?thesis using add_appends_child [OF k, of 1] k d by auto
qed

section \<open>The differential writer\<close>

text \<open>
  Claim C2. For a surface with the data model's shape that fits the display:
  with no baseline, \<open>write_gdram_buffer\<close> sends the address-set and word-write pair
  (\<open>pair_tx\<close>) of every word once, rows first and words within a row next; with a
  baseline of the same shape and the same words it sends nothing; with a baseline that
  differs in exactly one word it sends the pair of that word only; and a second
  write of the same store sends nothing.
\<close>

theorem differential_write:
  assumes "nrows (words (objs s bmp)) = height (objs s bmp)"
    and "ncols (words (objs s bmp)) = width (objs s bmp) div 16"
    and "height (objs s bmp) \<le> d_height d" and "width (objs s bmp) div 16 \<le> d_width d div 16"
  shows
    "(old_buffer d = None \<longrightarrow>
        (\<exists>s1 d1. write_gdram_buffer bmp s d = Inr (s1, d1) \<and>
           spi d1 = spi d @ concat (map (\<lambda>p. pair_tx (fst p) (snd p) (cells (words (objs s bmp)) (fst p) (snd p)))
                                      (positions (height (objs s bmp)) (width (objs s bmp) div 16))))) \<and>
     (\<forall>ob. old_buffer d = Some ob \<and>
           nrows (words (objs s ob)) = height (objs s bmp) \<and>
           ncols (words (objs s ob)) = width (objs s bmp) div 16 \<and>
           (\<forall>i<height (objs s bmp). \<forall>j<width (objs s bmp) div 16.
               cells (words (objs s bmp)) i j = cells (words (objs s ob)) i j) \<longrightarrow>
        (\<exists>s1 d1. write_gdram_buffer bmp s d = Inr (s1, d1) \<and> spi d1 = spi d)) \<and>
     (\<forall>ob i j. old_buffer d = Some ob \<and>
           nrows (words (objs s ob)) = height (objs s bmp) \<and>
           ncols (words (objs s ob)) = width (objs s bmp) div 16 \<and>
           i < height (objs s bmp) \<and> j < width (objs s bmp) div 16 \<and>
           (\<forall>i'<height (objs s bmp). \<forall>j'<width (objs s bmp) div 16.
               (cells (words (objs s bmp)) i' j' \<noteq> cells (words (objs s ob)) i' j') = (i' = i \<and> j' = j)) \<longrightarrow>
        (\<exists>s1 d1. write_gdram_buffer bmp s d = Inr (s1, d1) \<and>
           spi d1 = spi d @ pair_tx i j (cells (words (objs s bmp)) i j))) \<and>
     (\<forall>s1 d1. bmp < next_ref s \<and> write_gdram_buffer bmp s d = Inr (s1, d1) \<longrightarrow>
        (\<exists>s2 d2. write_gdram_buffer bmp s1 d1 = Inr (s2, d2) \<and> spi d2 = spi d1))"
proof (intro conjI allI impI)
  assume n: "old_buffer d = None"
  from write_ok [OF assms] n obtain d1 where
    "write_gdram_buffer bmp s d = Inr (snd (deepcopy bmp s), d1)"
    "spi d1 = spi d @ concat (map (emitted s bmp None)
                (positions (height (objs s bmp)) (width (objs s bmp) div 16)))"
    by auto
  moreover have "emitted s bmp None = (\<lambda>p. pair_tx (fst p) (snd p) (cells (words (objs s bmp)) (fst p) (snd p)))"
    by (simp add: emitted_def changed_def fun_eq_iff)
  ultimately show "\<exists>s1 d1. write_gdram_buffer bmp s d = Inr (s1, d1) \<and>
           spi d1 = spi d @ concat (map (\<lambda>p. pair_tx (fst p) (snd p) (cells (words (objs s bmp)) (fst p) (snd p)))
                                      (positions (height (objs s bmp)) (width (objs s bmp) div 16)))"
    by auto
next
  fix ob
  assume h: "old_buffer d = Some ob \<and>
           nrows (words (objs s ob)) = height (objs s bmp) \<and>
           ncols (words (objs s ob)) = width (objs s bmp) div 16 \<and>
           (\<forall>i<height (objs s bmp). \<forall>j<width (objs s bmp) div 16.
               cells (words (objs s bmp)) i j = cells (words (objs s ob)) i j)"
  from write_ok [OF assms] h obtain d1 where d1:
    "write_gdram_buffer bmp s d = Inr (snd (deepcopy bmp s), d1)"
    "spi d1 = spi d @ concat (map (emitted s bmp (Some ob))
                (positions (height (objs s bmp)) (width (objs s bmp) div 16)))"
    by auto
  have "\<forall>p\<in>set (positions (height (objs s bmp)) (width (objs s bmp) div 16)). emitted s bmp (Some ob) p = []"
    using h by (auto simp: emitted_def changed_def set_positions)
  then have "concat (map (emitted s bmp (Some ob))
                (positions (height (objs s bmp)) (width (objs s bmp) div 16))) = []"
    by simp
  with d1 show "\<exists>s1 d1. write_gdram_buffer bmp s d = Inr (s1, d1) \<and> spi d1 = spi d" by auto
next
  fix ob i j
  assume h: "old_buffer d = Some ob \<and>
           nrows (words (objs s ob)) = height (objs s bmp) \<and>
           ncols (words (objs s ob)) = width (objs s bmp) div 16 \<and>
           i < height (objs s bmp) \<and> j < width (objs s bmp) div 16 \<and>
           (\<forall>i'<height (objs s bmp). \<forall>j'<width (objs s bmp) div 16.
               (cells (words (objs s bmp)) i' j' \<noteq> cells (words (objs s ob)) i' j') = (i' = i \<and> j' = j))"
  from write_ok [OF assms] h obtain d1 where d1:
    "write_gdram_buffer bmp s d = Inr (snd (deepcopy bmp s), d1)"
    "spi d1 = spi d @ concat (map (emitted s bmp (Some ob))
                (positions (height (objs s bmp)) (width (objs s bmp) div 16)))"
    by auto
  have in_p: "(i, j) \<in> set (positions (height (objs s bmp)) (width (objs s bmp) div 16))"
    using h by (simp add: set_positions)
  have others: "\<And>q. q \<in> set (positions (height (objs s bmp)) (width (objs s bmp) div 16)) \<Longrightarrow>
      q \<noteq> (i, j) \<Longrightarrow> emitted s bmp (Some ob) q = []"
    using h by (auto simp: emitted_def changed_def set_positions)
  have "emitted s bmp (Some ob) (i, j) = pair_tx i j (cells (words (objs s bmp)) i j)"
    using h by (auto simp: emitted_def changed_def)
  with concat_single [OF distinct_positions in_p others] d1
  show "\<exists>s1 d1. write_gdram_buffer bmp s d = Inr (s1, d1) \<and>
           spi d1 = spi d @ pair_tx i j (cells (words (objs s bmp)) i j)"
    by auto
next
  fix s1 d1
  assume h: "bmp < next_ref s \<and> write_gdram_buffer bmp s d = Inr (s1, d1)"
  then have b: "old_buffer d1 = Some (next_ref s)" and s1: "s1 = snd (deepcopy bmp s)"
    using write_gdram_buffer_baseline by blast+
  have same: "objs s1 bmp = objs s bmp" unfolding s1 using h by (simp add: deepcopy_old)
  have copy: "words (objs s1 (next_ref s)) = words (objs s bmp)" unfolding s1 by (rule deepcopy_words)
  have dims: "d_height d1 = d_height d" "d_width d1 = d_width d"
  proof -
    from h obtain d' where "for_each (write_cell s bmp)
        (positions (height (objs s bmp)) (width (objs s bmp) div 16)) d = Inr d'"
      "d1 = d'\<lparr>old_buffer := Some (fst (deepcopy bmp s))\<rparr>"
      by (auto simp: write_gdram_buffer_def split: sum.splits prod.splits)
    then show "d_height d1 = d_height d" "d_width d1 = d_width d"
      using scan_dims by auto
  qed
  have "\<exists>d2. write_gdram_buffer bmp s1 d1 = Inr (snd (deepcopy bmp s1), d2) \<and>
     spi d2 = spi d1 @ concat (map (emitted s1 bmp (old_buffer d1))
                (positions (height (objs s1 bmp)) (width (objs s1 bmp) div 16)))  \<and>
     old_buffer d2 = Some (next_ref s1) \<and> d_height d2 = d_height d1 \<and> d_width d2 = d_width d1"
    using assms b copy by (intro write_ok) (simp_all add: same dims)
  then obtain d2 where d2: "write_gdram_buffer bmp s1 d1 = Inr (snd (deepcopy bmp s1), d2)"
    "spi d2 = spi d1 @ concat (map (emitted s1 bmp (Some (next_ref s)))
                (positions (height (objs s bmp)) (width (objs s bmp) div 16)))"
    using b same by auto
  have "\<And>p. emitted s1 bmp (Some (next_ref s)) p = []"
    by (simp add: emitted_def changed_def copy same)
  then have "concat (map (emitted s1 bmp (Some (next_ref s)))
                (positions (height (objs s bmp)) (width (objs s bmp) div 16))) = []"
    by simp
  with d2 show "\<exists>s2 d2. write_gdram_buffer bmp s1 d1 = Inr (s2, d2) \<and> spi d2 = spi d1" by auto
qed

theorem differential_write_witness:
  "old_buffer (ST7920_init 128 64) = None \<and>
   (\<exists>s1 d1. write_gdram_buffer 0 one_bitmap (ST7920_init 128 64) = Inr (s1, d1) \<and>
      spi d1 = spi (ST7920_init 128 64) @ [[0xF8, 0x80, 0], [0xF8, 0x80, 0], [0xFA, 0, 0], [0xFA, 0, 0]] \<and>
      (\<exists>s2 d2. write_gdram_buffer 0 s1 d1 = Inr (s2, d2) \<and> spi d2 = spi d1))"
proof -
  let ?d = "ST7920_init 128 64"
  have n: "old_buffer ?d = None" "d_height ?d = 64" "d_width ?d = 128"
    by (simp_all add: ST7920_init_def initialize_def clear_def send_cmd_def send_def)
  have h1: "nrows (words (objs one_bitmap 0)) = height (objs one_bitmap 0)"
    and h2: "ncols (words (objs one_bitmap 0)) = width (objs one_bitmap 0) div 16"
    and h3: "height (objs one_bitmap 0) \<le> d_height ?d"
    and h4: "width (objs one_bitmap 0) div 16 \<le> d_width ?d div 16"
    by (simp_all add: one_bitmap_obj Bitmap_init_def zeros_def n)
  have tx: "concat (map (\<lambda>p. pair_tx (fst p) (snd p) (cells (words (objs one_bitmap 0)) (fst p) (snd p)))
      (positions (height (objs one_bitmap 0)) (width (objs one_bitmap 0) div 16)))
      = [[0xF8, 0x80, 0], [0xF8, 0x80, 0], [0xFA, 0, 0], [0xFA, 0, 0]]"
    by (simp add: one_bitmap_obj Bitmap_init_def zeros_def positions_1_1 pair_tx_def cmd_bytes_def data_bytes_def)
  have lt: "(0::nat) < next_ref one_bitmap" by (simp add: one_bitmap_next)
  from differential_write [OF h1 h2 h3 h4] n(1) lt tx show ?thesis
    by (metis (no_types, lifting))
qed

text \<open>
  Claim C7. After \<open>write_gdram_buffer\<close> has returned, the baseline is an object other
  than the surface written, it has the words the surface had, and any sequence of
  \<open>set_pixel\<close>, \<open>set_word\<close>, \<open>reset\<close> and \<open>reverse\<close> calls on the surface leaves
  the words of the baseline as they are.
\<close>

theorem baseline_is_a_copy:
  assumes "write_gdram_buffer bmp s d = Inr (s1, d1)" and "bmp < next_ref s"
    and "for_each (apply_mutation bmp) ms s1 = Inr s2"
  shows "\<exists>c. old_buffer d1 = Some c \<and> c \<noteq> bmp \<and> words (objs s1 c) = words (objs s bmp) \<and>
     words (objs s2 c) = words (objs s1 c)"
proof -
  have b: "old_buffer d1 = Some (next_ref s)" and s1: "s1 = snd (deepcopy bmp s)"
    using write_gdram_buffer_baseline [OF assms(1)] by simp_all
  have w: "words (objs s1 (next_ref s)) = words (objs s bmp)"
    unfolding s1 by (rule deepcopy_words)
  have "frame bmp s1 s2"
    by (rule for_each_frame [where f = "apply_mutation bmp", OF apply_mutation_frame assms(3)])
  moreover have "next_ref s < next_ref s1" unfolding s1 by (rule deepcopy_next)
  ultimately have "words (objs s2 (next_ref s)) = words (objs s1 (next_ref s))"
    using assms(2) by (simp add: frame_def)
  with b w assms(2) show ?thesis by auto
qed

theorem baseline_is_a_copy_witness:
  "\<exists>s1 d1 s2. write_gdram_buffer 0 one_bitmap (ST7920_init 128 64) = Inr (s1, d1) \<and>
     0 < next_ref one_bitmap \<and>
     for_each (apply_mutation 0) [Write (SetPixel 3 0 True), Reset, Reverse] s1 = Inr s2 \<and>
     (\<exists>c. old_buffer d1 = Some c \<and> c \<noteq> 0 \<and> words (objs s2 c) = words (objs one_bitmap 0) \<and>
          cells (words (objs s2 0)) 0 0 = 0xFFFF \<and> cells (words (objs s2 c)) 0 0 = 0)"
proof -
  let ?d = "ST7920_init 128 64"
  have n: "old_buffer ?d = None" "d_height ?d = 64" "d_width ?d = 128"
    by (simp_all add: ST7920_init_def initialize_def clear_def send_cmd_def send_def)
  have "\<exists>d1. write_gdram_buffer 0 one_bitmap ?d = Inr (snd (deepcopy 0 one_bitmap), d1) \<and>
     spi d1 = spi ?d @ concat (map (emitted one_bitmap 0 (old_buffer ?d))
                (positions (height (objs one_bitmap 0)) (width (objs one_bitmap 0) div 16))) \<and>
     old_buffer d1 = Some (next_ref one_bitmap) \<and> d_height d1 = d_height ?d \<and> d_width d1 = d_width ?d"
    by (rule write_ok) (simp_all add: one_bitmap_obj Bitmap_init_def zeros_def n)
  then obtain d1 where w: "write_gdram_buffer 0 one_bitmap ?d = Inr (snd (deepcopy 0 one_bitmap), d1)"
    by blast
  define s1 where "s1 = snd (deepcopy 0 one_bitmap)"
  have lt: "(0::nat) < next_ref one_bitmap" by (simp add: one_bitmap_next)
  have o: "objs s1 0 = Bitmap_init 16 1 None ON"
    unfolding s1_def using deepcopy_old [OF lt] by (simp add: one_bitmap_obj)
  have c: "chain s1 0 []" by (simp add: o Bitmap_init_def)
  have k: "shape_ok (objs s1 0)" by (simp add: o Bitmap_init_def shape_ok_def zeros_def)
  have b: "in_bounds (objs s1 0) 3 0" by (simp add: o Bitmap_init_def in_bounds_def)
  define s2 where "s2 = Bitmap_reverse 0 (reset 0
     (touch (set [0]) (upd 0 (\<lambda>b. b\<lparr>words := put_bit 3 0 (words (objs s1 0))\<rparr>) s1)))"
  have m: "for_each (apply_mutation 0) [Write (SetPixel 3 0 True), Reset, Reverse] s1 = Inr s2"
    by (simp add: set_pixel_in [OF k b c] reverse_def reset_def o Bitmap_init_def s2_def)
  have live: "cells (words (objs s2 0)) 0 0 = 0xFFFF"
    by (simp add: s2_def Bitmap_reverse_def reset_def map_cells_def in_shape_def put_bit_def o
        Bitmap_init_def zeros_def)
  from baseline_is_a_copy [OF w [folded s1_def] lt m]
  obtain c where c: "old_buffer d1 = Some c" "c \<noteq> 0" "words (objs s1 c) = words (objs one_bitmap 0)"
    "words (objs s2 c) = words (objs s1 c)"
    by blast
  have "cells (words (objs s2 c)) 0 0 = 0"
    using c by (simp add: one_bitmap_obj Bitmap_init_def zeros_def)
  with w [folded s1_def] lt m c live show ?thesis by auto
qed

section \<open>Drawing a container\<close>

text \<open>
  Claim C1. The claim says that after a successful \<open>draw()\<close> the dirty flag of every
  drawable is cleared, in particular that of a \<open>GraphicsBuffer\<close>. The shapes do clear it
  (\<open>clear_dirty\<close> ends \<open>Line_draw\<close>, \<open>Circle_draw\<close>, \<open>Rectangle_draw\<close>,
  \<open>Triangle_draw\<close> and \<open>DrawableText_draw\<close>), but \<open>GraphicsBuffer.draw\<close> has no
  assignment to the flag: drawing the container \<open>GraphicsBuffer(16, 1)\<close> with no children
  returns the reset container with its flag still set, so a second \<open>draw()\<close> passes the
  guard again and recomputes. Lemma \<open>GraphicsBuffer_draw_stays_dirty\<close> shows the same of
  every dirty container whose draw returns.
\<close>

theorem container_stays_dirty:
  "GraphicsBuffer_draw exact_env 0 fresh_buffer = Some (Inr (reset 0 fresh_buffer)) \<and>
   is_dirty (objs (reset 0 fresh_buffer) 0)"
  by (simp add: GraphicsBuffer_draw_def fresh_buffer_obj GraphicsBuffer_init_def Bitmap_init_def reset_def)

text \<open>
  Claim C3. The first half of the claim holds: \<open>dirty()\<close> on a drawable whose container
  chain is \<open>ps\<close> sets the flag on the drawable and on every container of the chain and
  changes nothing else (lemmas \<open>dirty_chain\<close> and \<open>mark_dirty_chain\<close>), and so does every
  setter (lemma \<open>set_attr_chain\<close>). The second half fails on the code: after \<open>draw()\<close> on
  a root container holding one filled rectangle, the rectangle's flag is false and the
  root's flag is still true.
\<close>

theorem root_stays_dirty_after_draw:
  "\<exists>s'. GraphicsBuffer_draw exact_env 0 rect_scene = Some (Inr s') \<and>
      is_dirty (objs s' 0) \<and> \<not> is_dirty (objs s' 1)"
proof -
  have k: "kind (objs rect_scene 0) = Buffer [Suc 0]" "is_dirty (objs rect_scene 0)"
    by (simp_all add: scene_objs GraphicsBuffer_init_def Bitmap_init_def)
  from compose_one_rect [OF root_reset [OF scene_facts(3)]
      rect_child_reset [OF scene_facts(3) scene_facts(8)], of exact_env]
  obtain s' where c: "compose exact_env 0 [Suc 0] (reset 0 rect_scene) = Some (Inr s')"
    and a: "\<not> is_dirty (objs s' (Suc 0))"
    and b: "is_dirty (objs (reset 0 rect_scene) 0) \<longrightarrow> is_dirty (objs s' 0)"
    by blast
  have "GraphicsBuffer_draw exact_env 0 rect_scene = Some (Inr s')"
    using k c by (simp add: GraphicsBuffer_draw_def)
  moreover have "is_dirty (objs s' 0)" using b k(2) by (simp add: reset_def)
  ultimately show ?thesis using a by auto
qed

text \<open>
  Claim C4. The claim says that \<open>draw()\<close> on a container one of whose children is itself a
  container succeeds. The compositor calls every child as \<open>c.draw(self.width, self.height)\<close>,
  and \<open>GraphicsBuffer.draw(self)\<close> takes no size arguments, so the call on the nested
  container raises TypeError (the branch \<open>Buffer\<close> of \<open>draw_child\<close>): drawing a
  \<open>GraphicsBuffer(16, 1)\<close> whose only child is an empty \<open>GraphicsBuffer(16, 1)\<close> raises.
\<close>

theorem nested_container_raises:
  "GraphicsBuffer_draw exact_env 0 nested_buffers = Some (Inl TypeError)"
  by (simp add: GraphicsBuffer_draw_def nested_buffers_obj draw_child_def then_do_def reset_def Let_def)

text \<open>
  Claim C5. A draw of a dirty container with the children \<open>cs\<close> (distinct allocated
  objects) that returns leaves in the container's words the fold, in the order of \<open>cs\<close>
  and starting from the all-zero accumulator, of each child's rendered words under the
  child's blend mode (\<open>blend_all\<close>); a blend acts on each word as \<open>OR\<close> for \<open>ON\<close>, as
  \<open>AND NOT\<close> for \<open>OFF\<close> and as \<open>XOR\<close> for \<open>XOR'\<close>; and the order matters: with the
  filled rectangles A = \<open>Rectangle(0, 0, 2, 1)\<close> of mode \<open>ON\<close> (object 1) and
  B = \<open>Rectangle(1, 0, 2, 1)\<close> of mode \<open>OFF\<close> (object 2), which overlap in pixel
  \<open>(1, 0)\<close>, the container with children \<open>[A, B]\<close> (\<open>scene_ab\<close>) draws pixel \<open>(1, 0)\<close> as 0
  and the container with children \<open>[B, A]\<close> (\<open>scene_ba\<close>) draws it as 1, whatever the float
  operations are.
\<close>

theorem draw_composes_in_order:
  "(GraphicsBuffer_draw E g s = Some (Inr s') \<and> is_dirty (objs s g) \<and> kind (objs s g) = Buffer cs \<and>
    g < next_ref s \<and> (\<forall>c\<in>set cs. c < next_ref s) \<and> distinct cs \<longrightarrow>
      blend_all (map_cells (\<lambda>_. 0) (words (objs s g)))
        (map (\<lambda>c. (blend_mode (objs s c), words (objs s' c))) cs) = Inr (words (objs s' g))) \<and>
   (\<forall>bm a b a' i j. blend bm a b = Inr a' \<and> nrows b = nrows a \<and> ncols b = ncols a \<and>
        i < nrows a \<and> j < ncols a \<longrightarrow>
        cells a' i j =
          (case bm of ON \<Rightarrow> cells a i j OR cells b i j
                    | OFF \<Rightarrow> cells a i j AND NOT (cells b i j)
                    | XOR' \<Rightarrow> cells a i j XOR cells b i j)) \<and>
   (kind (objs scene_ab 0) = Buffer [1, 2] \<and> kind (objs scene_ba 0) = Buffer [2, 1] \<and>
    objs scene_ab 1 = objs scene_ba 1 \<and> objs scene_ab 2 = objs scene_ba 2 \<and>
    blend_mode (objs scene_ab 1) = ON \<and> blend_mode (objs scene_ab 2) = OFF \<and>
    (\<exists>s1 s2. GraphicsBuffer_draw E 0 scene_ab = Some (Inr s1) \<and>
        GraphicsBuffer_draw E 0 scene_ba = Some (Inr s2) \<and>
        get_pixel 0 1 0 s1 = Inr 0 \<and> get_pixel 0 1 0 s2 = Inr 1 \<and>
        words (objs s1 0) \<noteq> words (objs s2 0)))"
proof (intro conjI impI allI)
  assume h: "GraphicsBuffer_draw E g s = Some (Inr s') \<and> is_dirty (objs s g) \<and>
    kind (objs s g) = Buffer cs \<and> g < next_ref s \<and> (\<forall>c\<in>set cs. c < next_ref s) \<and> distinct cs"
  then have h1: "GraphicsBuffer_draw E g s = Some (Inr s')" and h2: "is_dirty (objs s g)"
    and h3: "kind (objs s g) = Buffer cs" by blast+
  have c: "compose E g cs (reset g s) = Some (Inr s')"
    using h1 unfolding GraphicsBuffer_draw_def by (simp add: h2 h3)
  have k: "kind (objs (reset g s) g) = Buffer cs" using h by (simp add: reset_def)
  have n: "g < next_ref (reset g s)" "\<forall>c\<in>set cs. c < next_ref (reset g s)"
    using h by (simp_all add: reset_def)
  have d: "distinct cs" using h by simp
  have m: "map (\<lambda>c. (blend_mode (objs (reset g s) c), words (objs s' c))) cs =
      map (\<lambda>c. (blend_mode (objs s c), words (objs s' c))) cs"
    by (simp add: reset_def)
  have w: "words (objs (reset g s) g) = map_cells (\<lambda>_. 0) (words (objs s g))"
    by (simp add: reset_def)
  from compose_fold [OF c k n d]
  show "blend_all (map_cells (\<lambda>_. 0) (words (objs s g)))
        (map (\<lambda>c. (blend_mode (objs s c), words (objs s' c))) cs) = Inr (words (objs s' g))"
    unfolding m w .
next
  fix bm a b a' i j
  assume "blend bm a b = Inr a' \<and> nrows b = nrows a \<and> ncols b = ncols a \<and> i < nrows a \<and> j < ncols a"
  then show "cells a' i j =
          (case bm of ON \<Rightarrow> cells a i j OR cells b i j
                    | OFF \<Rightarrow> cells a i j AND NOT (cells b i j)
                    | XOR' \<Rightarrow> cells a i j XOR cells b i j)"
    using blend_cells by blast
next
  show "kind (objs scene_ab 0) = Buffer [1, 2]" "kind (objs scene_ba 0) = Buffer [2, 1]"
    "objs scene_ab 1 = objs scene_ba 1" "objs scene_ab 2 = objs scene_ba 2"
    "blend_mode (objs scene_ab 1) = ON" "blend_mode (objs scene_ab 2) = OFF"
    by (simp_all add: scene_objs Rectangle_init_def Bitmap_init_def)
next
  have kab: "kind (objs scene_ab 0) = Buffer [Suc 0, 2]" "is_dirty (objs scene_ab 0)"
    and kba: "kind (objs scene_ba 0) = Buffer [2, Suc 0]" "is_dirty (objs scene_ba 0)"
    by (simp_all add: scene_objs GraphicsBuffer_init_def Bitmap_init_def)
  have ne: "Suc 0 \<noteq> (2::nat)" "(2::nat) \<noteq> Suc 0" by simp_all
  have ib: "in_bounds (objs scene_ab 0) 1 0" "in_bounds (objs scene_ba 0) 1 0"
    by (simp_all add: scene_objs GraphicsBuffer_init_def Bitmap_init_def in_bounds_def)
  from draw_two_rects [OF scene_facts(1) kab scene_facts(4,5) ne(1), of E]
  obtain s1 where 1: "GraphicsBuffer_draw E 0 scene_ab = Some (Inr s1)"
    and p1: "\<forall>px py. in_bounds (objs scene_ab 0) px py \<longrightarrow>
        pixel (words (objs s1 0)) px py =
        blend_px (blend_mode (objs scene_ab 2))
          (blend_px (blend_mode (objs scene_ab (Suc 0))) 0 (rect_px (kind (objs scene_ab (Suc 0))) px py))
          (rect_px (kind (objs scene_ab 2)) px py)"
    and g1: "\<forall>px py. in_bounds (objs scene_ab 0) px py \<longrightarrow>
        get_pixel 0 px py s1 =
        Inr (blend_px (blend_mode (objs scene_ab 2))
          (blend_px (blend_mode (objs scene_ab (Suc 0))) 0 (rect_px (kind (objs scene_ab (Suc 0))) px py))
          (rect_px (kind (objs scene_ab 2)) px py))"
    by blast
  from draw_two_rects [OF scene_facts(2) kba scene_facts(7,6) ne(2), of E]
  obtain s2 where 2: "GraphicsBuffer_draw E 0 scene_ba = Some (Inr s2)"
    and p2: "\<forall>px py. in_bounds (objs scene_ba 0) px py \<longrightarrow>
        pixel (words (objs s2 0)) px py =
        blend_px (blend_mode (objs scene_ba (Suc 0)))
          (blend_px (blend_mode (objs scene_ba 2)) 0 (rect_px (kind (objs scene_ba 2)) px py))
          (rect_px (kind (objs scene_ba (Suc 0))) px py)"
    and g2: "\<forall>px py. in_bounds (objs scene_ba 0) px py \<longrightarrow>
        get_pixel 0 px py s2 =
        Inr (blend_px (blend_mode (objs scene_ba (Suc 0)))
          (blend_px (blend_mode (objs scene_ba 2)) 0 (rect_px (kind (objs scene_ba 2)) px py))
          (rect_px (kind (objs scene_ba (Suc 0))) px py))"
    by blast
  have v1: "blend_px (blend_mode (objs scene_ab 2))
          (blend_px (blend_mode (objs scene_ab (Suc 0))) 0 (rect_px (kind (objs scene_ab (Suc 0))) 1 0))
          (rect_px (kind (objs scene_ab 2)) 1 0) = 0"
    by (simp add: scene_objs Rectangle_init_def Bitmap_init_def blend_px_def rect_px_def)
  have v2: "blend_px (blend_mode (objs scene_ba (Suc 0)))
          (blend_px (blend_mode (objs scene_ba 2)) 0 (rect_px (kind (objs scene_ba 2)) 1 0))
          (rect_px (kind (objs scene_ba (Suc 0))) 1 0) = 1"
    by (simp add: scene_objs Rectangle_init_def Bitmap_init_def blend_px_def rect_px_def)
  have a: "get_pixel 0 1 0 s1 = Inr 0" using g1 ib(1) v1 by simp
  have b: "get_pixel 0 1 0 s2 = Inr 1" using g2 ib(2) v2 by simp
  have "pixel (words (objs s1 0)) 1 0 = 0" using p1 ib(1) v1 by simp
  moreover have "pixel (words (objs s2 0)) 1 0 = 1" using p2 ib(2) v2 by simp
  ultimately have "words (objs s1 0) \<noteq> words (objs s2 0)" by auto
  with 1 2 a b show "\<exists>s1 s2. GraphicsBuffer_draw E 0 scene_ab = Some (Inr s1) \<and>
        GraphicsBuffer_draw E 0 scene_ba = Some (Inr s2) \<and>
        get_pixel 0 1 0 s1 = Inr 0 \<and> get_pixel 0 1 0 s2 = Inr 1 \<and>
        words (objs s1 0) \<noteq> words (objs s2 0)"
    by blast
qed

theorem draw_composes_in_order_witness:
  "\<exists>s1. GraphicsBuffer_draw exact_env 0 scene_ab = Some (Inr s1) \<and>
     is_dirty (objs scene_ab 0) \<and> kind (objs scene_ab 0) = Buffer [1, 2] \<and>
     blend_all (map_cells (\<lambda>_. 0) (words (objs scene_ab 0)))
       [(ON, words (objs s1 1)), (OFF, words (objs s1 2))] = Inr (words (objs s1 0))"
proof -
  have t: "\<And>s'. GraphicsBuffer_draw exact_env 0 scene_ab = Some (Inr s') \<and> is_dirty (objs scene_ab 0) \<and>
      kind (objs scene_ab 0) = Buffer [1, 2] \<and> 0 < next_ref scene_ab \<and>
      (\<forall>c\<in>set [1, 2]. c < next_ref scene_ab) \<and> distinct [1, 2::nat] \<longrightarrow>
      blend_all (map_cells (\<lambda>_. 0) (words (objs scene_ab 0)))
        (map (\<lambda>c. (blend_mode (objs scene_ab c), words (objs s' c))) [1, 2]) = Inr (words (objs s' 0))"
    and e: "\<exists>s1 s2. GraphicsBuffer_draw exact_env 0 scene_ab = Some (Inr s1) \<and>
        GraphicsBuffer_draw exact_env 0 scene_ba = Some (Inr s2) \<and>
        get_pixel 0 1 0 s1 = Inr 0 \<and> get_pixel 0 1 0 s2 = Inr 1 \<and>
        words (objs s1 0) \<noteq> words (objs s2 0)"
    using draw_composes_in_order [of exact_env 0 scene_ab _ "[1, 2]"] by blast+
  from e obtain s1 where 1: "GraphicsBuffer_draw exact_env 0 scene_ab = Some (Inr s1)" by blast
  have f: "is_dirty (objs scene_ab 0)" "kind (objs scene_ab 0) = Buffer [1, 2]"
    "0 < next_ref scene_ab" "\<forall>c\<in>set [1, 2]. c < next_ref scene_ab" "distinct [1, 2::nat]"
    "blend_mode (objs scene_ab 1) = ON" "blend_mode (objs scene_ab 2) = OFF"
    by (simp_all add: scene_objs GraphicsBuffer_init_def Rectangle_init_def Bitmap_init_def)
  from t [of s1] 1 f have "blend_all (map_cells (\<lambda>_. 0) (words (objs scene_ab 0)))
        (map (\<lambda>c. (blend_mode (objs scene_ab c), words (objs s1 c))) [1, 2]) = Inr (words (objs s1 0))"
    by blast
  then have "blend_all (map_cells (\<lambda>_. 0) (words (objs scene_ab 0)))
       [(ON, words (objs s1 1)), (OFF, words (objs s1 2))] = Inr (words (objs s1 0))"
    using f(6,7) by simp
  with 1 f(1,2) show ?thesis by blast
qed

section \<open>The filled triangle\<close>



end
